theory Spec2Isabelle
  imports
    Complex_Main
    "HOL-Library.Multiset"
    "HOL-Library.AList"
    "HOL-Library.Signed_Division"
begin

section \<open>Failures: Go errors and Go panics\<close>

text \<open>
  A Go function of this package ends in one of three ways: it returns a value with a nil
  error, it returns a non-nil error, or it panics. The model gives every such function the
  result type \<open>failure + 'a\<close>. Errors made by the package itself (\<open>errors.New\<close>) carry
  their message; errors coming from the database client carry a gRPC status code, which is
  what \<open>status.Code\<close> reads in \<open>GetDoc\<close>.
\<close>

datatype code = NotFound | Unknown | OtherCode nat

datatype err =
    ErrNew string
  | Client code string
  | Joined "err list"

datatype panic =
    IndexOutOfRange
  | TypeAssertion
  | NilDereference
  | UnhandledDefaultCase
  | Uncomparable
  | ReflectZeroValue

datatype failure = Error err | Panic panic

definition and_then :: "failure + 'a \<Rightarrow> ('a \<Rightarrow> failure + 'b) \<Rightarrow> failure + 'b" where
  "and_then r f = (case r of Inl e \<Rightarrow> Inl e | Inr x \<Rightarrow> f x)"

fun status_Code :: "err \<Rightarrow> code" where
  "status_Code (Client c _) = c"
| "status_Code _ = Unknown"

text \<open>\<open>errors.Join\<close> on a list of non-nil errors: nil when the list is empty.\<close>

definition errors_Join :: "err list \<Rightarrow> err option" where
  "errors_Join errs = (if errs = [] then None else Some (Joined errs))"

section \<open>Go integers\<close>

text \<open>
  Go's \<open>int\<close> is a 64-bit two's complement integer on the platforms the Firestore client
  supports. It is modelled as an \<open>int\<close> with the wrap-around written out; \<open>/\<close> and \<open>%\<close>
  truncate towards zero (\<open>sdiv\<close>, \<open>smod\<close>).
\<close>

definition wrap64 :: "int \<Rightarrow> int" where
  "wrap64 x = signed_take_bit 63 x"

definition go_sub :: "int \<Rightarrow> int \<Rightarrow> int" where
  "go_sub a b = wrap64 (a - b)"

definition go_add :: "int \<Rightarrow> int \<Rightarrow> int" where
  "go_add a b = wrap64 (a + b)"

definition go_mul :: "int \<Rightarrow> int \<Rightarrow> int" where
  "go_mul a b = wrap64 (a * b)"

definition go_div :: "int \<Rightarrow> int \<Rightarrow> int" where
  "go_div a b = wrap64 (a sdiv b)"

definition go_mod :: "int \<Rightarrow> int \<Rightarrow> int" where
  "go_mod a b = a smod b"

section \<open>Strings\<close>

text \<open>
  Strings are byte strings. \<open>strings.ToLower\<close> and \<open>strings.TrimSpace\<close> are modelled on
  ASCII: the letters A to Z are lowered, and tab, line feed, vertical tab, form feed,
  carriage return and space are trimmed.
\<close>

definition lower_char :: "char \<Rightarrow> char" where
  "lower_char c =
     (case map_of (zip ''ABCDEFGHIJKLMNOPQRSTUVWXYZ'' ''abcdefghijklmnopqrstuvwxyz'') c of
        Some l \<Rightarrow> l
      | None \<Rightarrow> c)"

definition ToLower :: "string \<Rightarrow> string" where
  "ToLower s = map lower_char s"

definition is_space :: "char \<Rightarrow> bool" where
  "is_space c = (c \<in> set [CHR 0x09, CHR 0x0A, CHR 0x0B, CHR 0x0C, CHR 0x0D, CHR '' ''])"

definition TrimSpace :: "string \<Rightarrow> string" where
  "TrimSpace s = rev (dropWhile is_space (rev (dropWhile is_space s)))"

text \<open>\<open>strings.Split(s, sep)\<close> for a one-character separator.\<close>

fun Split :: "string \<Rightarrow> char \<Rightarrow> string list" where
  "Split [] sep = [[]]"
| "Split (c # cs) sep =
     (if c = sep then [] # Split cs sep
      else (case Split cs sep of [] \<Rightarrow> [[c]] | p # ps \<Rightarrow> (c # p) # ps))"

section \<open>Document data\<close>

text \<open>
  What \<open>DocumentSnapshot.Data()\<close> decodes a stored document into: nil, booleans, 64-bit
  integers, strings, timestamps and document references (both opaque, compared as
  values), arrays (\<open>[]any\<close>) and maps (\<open>map[string]any\<close>). Floating point numbers
  and byte strings are left out of the model.
\<close>

datatype fval =
    FNil
  | FBool bool
  | FInt int
  | FStr string
  | FTime nat
  | FRef nat
  | FArr "fval list"
  | FMap "(string \<times> fval) list"

type_synonym doc = "(string \<times> fval) list"

section \<open>Dynamically typed values of a condition sequence\<close>

text \<open>
  A condition is a \<open>[]any\<close>. The code inspects each element with \<open>reflect\<close> and with type
  assertions, so the model keeps the Go types the code distinguishes: \<open>int\<close>, \<open>string\<close>,
  \<open>[]string\<close>, \<open>[]any\<close>, \<open>map[string]any\<close>, and \<open>Foreign k\<close> for a value of any other
  Go type whose \<open>reflect.Kind\<close> is \<open>k\<close> (for example \<open>int64\<close>, \<open>map[string]string\<close>, or a
  named string type). The association list of a \<open>GMap\<close> lists the entries in the order in
  which the \<open>range\<close> loop of \<open>MakeQuery\<close> visits them; Go leaves that order unspecified,
  and theorems quantify over every list.
\<close>

datatype kind = KInvalid | KString | KSlice | KMap | KOther

datatype gval =
    GNil
  | GBool bool
  | GInt int
  | GStr string
  | GStrs "string list"
  | GSlice "gval list"
  | GMap "(string \<times> gval) list"
  | GDocs "doc list"
  | Foreign kind

fun kind_of :: "gval \<Rightarrow> kind" where
  "kind_of GNil = KInvalid"
| "kind_of (GBool _) = KOther"
| "kind_of (GInt _) = KOther"
| "kind_of (GStr _) = KString"
| "kind_of (GStrs _) = KSlice"
| "kind_of (GSlice _) = KSlice"
| "kind_of (GMap _) = KMap"
| "kind_of (GDocs _) = KSlice"
| "kind_of (Foreign k) = k"

text \<open>
  \<open>reflect.ValueOf(v).Kind()\<close> is \<open>Invalid\<close> for a nil interface, while
  \<open>reflect.TypeOf(v)\<close> is then a nil \<open>reflect.Type\<close>, and calling \<open>Kind\<close> on it panics.
\<close>

definition ValueOf_Kind :: "gval \<Rightarrow> kind" where
  "ValueOf_Kind v = kind_of v"

definition TypeOf_Kind :: "gval \<Rightarrow> failure + kind" where
  "TypeOf_Kind v = (if v = GNil then Inl (Panic NilDereference) else Inr (kind_of v))"

text \<open>Indexing a slice, and the type assertions the code makes.\<close>

definition index :: "'a list \<Rightarrow> nat \<Rightarrow> failure + 'a" where
  "index xs i = (if i < length xs then Inr (xs ! i) else Inl (Panic IndexOutOfRange))"

definition as_string :: "gval \<Rightarrow> failure + string" where
  "as_string v = (case v of GStr s \<Rightarrow> Inr s | _ \<Rightarrow> Inl (Panic TypeAssertion))"

definition as_int :: "gval \<Rightarrow> failure + int" where
  "as_int v = (case v of GInt n \<Rightarrow> Inr n | _ \<Rightarrow> Inl (Panic TypeAssertion))"

definition as_strings :: "gval \<Rightarrow> failure + string list" where
  "as_strings v = (case v of GStrs ss \<Rightarrow> Inr ss | _ \<Rightarrow> Inl (Panic TypeAssertion))"

definition as_slice :: "gval \<Rightarrow> failure + gval list" where
  "as_slice v = (case v of GSlice xs \<Rightarrow> Inr xs | _ \<Rightarrow> Inl (Panic TypeAssertion))"

definition as_map :: "gval \<Rightarrow> failure + (string \<times> gval) list" where
  "as_map v = (case v of GMap m \<Rightarrow> Inr m | _ \<Rightarrow> Inl (Panic TypeAssertion))"

section \<open>helpers.go: parseOrderBy\<close>

datatype direction = Asc | Desc

record OrderBy =
  Field :: string
  Direction :: direction

definition parseOrderBy :: "string \<Rightarrow> OrderBy option" where
  "parseOrderBy orderBy =
     (if orderBy = [] then None
      else
        let orderBySlice = Split orderBy (CHR '':'');
            orderBySlice = (if length orderBySlice = 1 then orderBySlice @ [''asc''] else orderBySlice);
            f = TrimSpace (orderBySlice ! 0);
            d = TrimSpace (ToLower (orderBySlice ! 1))
        in if d = ''asc'' then Some \<lparr>Field = f, Direction = Asc\<rparr>
           else if d = ''desc'' then Some \<lparr>Field = f, Direction = Desc\<rparr>
           else Some \<lparr>Field = f, Direction = Asc\<rparr>)"

section \<open>The query builder\<close>

text \<open>
  \<open>firestore.Query\<close> belongs to the database client. The model records the builder calls
  that \<open>MakeQuery\<close> makes on \<open>coll.ref.Query\<close>, in the order it makes them; the base
  query of the collection is the empty list.
\<close>

datatype qcall =
    Where string string gval
  | OrderByCall string direction
  | Limit int
  | Offset int
  | StartAt gval
  | StartAfter gval
  | EndAt gval
  | EndBefore gval

type_synonym query = "qcall list"


section \<open>MakeQuery\<close>

text \<open>
  The calls of \<open>debug\<close> under \<open>DebugEnabled\<close> only print and are left out.
\<close>

text \<open>The \<open>reflect.Slice\<close> case: \<open>[]any{path, op, val}\<close>.\<close>

definition where_clause :: "gval \<Rightarrow> query \<Rightarrow> failure + query" where
  "where_clause w query =
     and_then (as_slice w) (\<lambda>vSlide.
     and_then (index vSlide 0) (\<lambda>p.
     and_then (as_string p) (\<lambda>path.
     and_then (index vSlide 1) (\<lambda>opv.
     and_then (as_string opv) (\<lambda>op.
     and_then (index vSlide 2) (\<lambda>val.
       Inr (query @ [Where path op val])))))))"

text \<open>One \<open>parseOrderBy\<close> result applied to the query (both \<open>orderby\<close> cases).\<close>

definition apply_order :: "query \<Rightarrow> string \<Rightarrow> query" where
  "apply_order query ob =
     (case parseOrderBy ob of
        None \<Rightarrow> query
      | Some orderBy \<Rightarrow>
          if length (Field orderBy) > 0
          then query @ [OrderByCall (Field orderBy) (Direction orderBy)]
          else query)"

text \<open>The body of the loop over the final mapping (the \<open>switch strings.ToLower(key)\<close>).\<close>

definition modifier :: "query \<Rightarrow> string \<times> gval \<Rightarrow> failure + query" where
  "modifier query kv =
     (let key = fst kv; val = snd kv; k = ToLower key in
      if k = ''orderby'' then
        and_then (TypeOf_Kind val) (\<lambda>kd.
          if kd = KString then and_then (as_string val) (\<lambda>s. Inr (apply_order query s))
          else if kd = KSlice then and_then (as_strings val) (\<lambda>obSlide. Inr (foldl apply_order query obSlide))
          else Inr query)
      else if k = ''limit'' then and_then (as_int val) (\<lambda>n. Inr (query @ [Limit n]))
      else if k = ''offset'' then and_then (as_int val) (\<lambda>n. Inr (query @ [Offset n]))
      else if k = ''startat'' then Inr (query @ [StartAt val])
      else if k = ''startafter'' then Inr (query @ [StartAfter val])
      else if k = ''endat'' then Inr (query @ [EndAt val])
      else if k = ''endbefore'' then Inr (query @ [EndBefore val])
      else Inr query)"

fun modifiers :: "query \<Rightarrow> (string \<times> gval) list \<Rightarrow> failure + query" where
  "modifiers query [] = Inr query"
| "modifiers query (kv # vMap) = and_then (modifier query kv) (\<lambda>query'. modifiers query' vMap)"

text \<open>The loop over a mapping that is not the last element.\<close>

definition equality_filters :: "query \<Rightarrow> (string \<times> gval) list \<Rightarrow> query" where
  "equality_filters query vMap = foldl (\<lambda>q kv. q @ [Where (fst kv) ''=='' (snd kv)]) query vMap"

text \<open>
  One iteration of the loop over \<open>condition\<close>; \<open>is_last\<close> is \<open>idx == len(condition)-1\<close>.
\<close>

definition clause :: "bool \<Rightarrow> gval \<Rightarrow> query \<Rightarrow> failure + query" where
  "clause is_last w query =
     (case ValueOf_Kind w of
        KSlice \<Rightarrow> where_clause w query
      | KMap \<Rightarrow>
          and_then (as_map w) (\<lambda>vMap.
            if \<not> is_last then Inr (equality_filters query vMap)
            else modifiers query vMap)
      | _ \<Rightarrow> Inl (Panic UnhandledDefaultCase))"

fun MakeQuery_loop :: "gval list \<Rightarrow> query \<Rightarrow> failure + query" where
  "MakeQuery_loop [] query = Inr query"
| "MakeQuery_loop (w # rest) query =
     and_then (clause (rest = []) w query) (MakeQuery_loop rest)"

definition MakeQuery :: "gval list \<Rightarrow> failure + query" where
  "MakeQuery condition = MakeQuery_loop condition []"

section \<open>The database client\<close>

text \<open>
  The client is a parameter of the model: what \<open>query.Documents(ctx).GetAll()\<close> returns
  for a query, what the \<open>COUNT\<close> aggregation returns (\<open>None\<close> when the alias is missing
  from the result), and what \<open>Doc(id).Get(ctx)\<close> returns.
\<close>

record snapshot =
  Data :: doc
  RefID :: string
  RefPath :: string

record client =
  GetAll :: "query \<Rightarrow> err + snapshot list"
  AggregateCount :: "query \<Rightarrow> err + int option"
  DocGet :: "string \<Rightarrow> err + snapshot"

text \<open>
  \<open>lo.Assign\<close> merges maps left to right into a new map. The model keeps the position of
  a key that is already present and puts a new key last; the order in which the new map is
  later ranged over is chosen by the parameter \<open>ord\<close> of the functions that build one.
\<close>

definition lo_Assign :: "('k \<times> 'v) list list \<Rightarrow> ('k \<times> 'v) list" where
  "lo_Assign maps = foldl (\<lambda>out m. foldl (\<lambda>out' kv. AList.update (fst kv) (snd kv) out') out m) [] maps"

text \<open>\<open>lo.Last\<close> returns an error on an empty slice; the text is the library's.\<close>

definition lo_Last_message :: string where
  "lo_Last_message = ''last: cannot extract the last element of an empty slice''"

definition lo_Last :: "'a list \<Rightarrow> failure + 'a" where
  "lo_Last collection =
     (if collection = [] then Inl (Error (ErrNew lo_Last_message))
      else Inr (last collection))"

definition makeDocResponse :: "snapshot \<Rightarrow> doc" where
  "makeDocResponse snap = lo_Assign [Data snap, [(''_id'', FStr (RefID snap)), (''_ref'', FStr (RefPath snap))]]"

definition docSnapsDataToMap :: "snapshot list \<Rightarrow> doc list" where
  "docSnapsDataToMap docSnaps = map makeDocResponse docSnaps"

section \<open>ListDocs, GetDoc, FindDoc, CountDocs\<close>

definition ListDocs :: "client \<Rightarrow> gval list \<Rightarrow> failure + doc list" where
  "ListDocs coll condition =
     and_then (MakeQuery condition) (\<lambda>query.
       case GetAll coll query of
         Inl e \<Rightarrow> Inl (Error e)
       | Inr docs \<Rightarrow> Inr (docSnapsDataToMap docs))"

definition GetDoc :: "client \<Rightarrow> string \<Rightarrow> failure + doc" where
  "GetDoc coll docId =
     (case DocGet coll docId of
        Inl e \<Rightarrow>
          if status_Code e = NotFound then Inl (Error (ErrNew (''doc not found: '' @ docId)))
          else Inl (Error e)
      | Inr snap \<Rightarrow> Inr (makeDocResponse snap))"

text \<open>
  \<open>FindDoc\<close> and \<open>Paginate\<close> build or change the final mapping themselves. The order
  in which \<open>MakeQuery\<close> then ranges over it is Go's choice: the parameter \<open>ord\<close>
  stands for it, and theorems hold for every \<open>ord\<close> that keeps the entries. In the
  \<open>reflect.Map\<close> case \<open>FindDoc\<close> sets the key in the caller's own map.
\<close>

type_synonym iteration = "(string \<times> gval) list \<Rightarrow> (string \<times> gval) list"

definition FindDoc_condition :: "iteration \<Rightarrow> gval list \<Rightarrow> failure + gval list" where
  "FindDoc_condition ord condition =
     and_then (lo_Last condition) (\<lambda>lastCond.
     and_then (TypeOf_Kind lastCond) (\<lambda>kd.
       if kd = KSlice then Inr (condition @ [GMap (ord [(''limit'', GInt 1)])])
       else if kd = KMap then
         and_then (as_map lastCond) (\<lambda>lastCondMap.
           Inr (condition[length condition - 1 := GMap (ord (AList.update ''limit'' (GInt 1) lastCondMap))]))
       else Inr condition))"

definition FindDoc :: "client \<Rightarrow> iteration \<Rightarrow> gval list \<Rightarrow> failure + doc option" where
  "FindDoc coll ord condition =
     and_then (FindDoc_condition ord condition) (\<lambda>condition'.
     and_then (ListDocs coll condition') (\<lambda>docs.
       if length docs = 0 then Inr None else Inr (Some (docs ! 0))))"

text \<open>The tail of \<open>CountDocs\<close>: the aggregation query and the reading of its result.\<close>

definition count_query :: "client \<Rightarrow> query \<Rightarrow> failure + int" where
  "count_query coll query =
     (case AggregateCount coll query of
        Inl e \<Rightarrow> Inl (Error e)
      | Inr None \<Rightarrow> Inl (Error (ErrNew ''firestore: couldn't get alias for COUNT from results''))
      | Inr (Some n) \<Rightarrow> Inr n)"

definition CountDocs :: "client \<Rightarrow> gval list \<Rightarrow> failure + int" where
  "CountDocs coll condition =
     and_then (lo_Last condition) (\<lambda>lastCond.
     and_then (TypeOf_Kind lastCond) (\<lambda>kd.
       let condition' = (if kd = KMap then take (length condition - 1) condition else condition)
       in and_then (MakeQuery condition') (count_query coll)))"

section \<open>Paginate and PaginateWithCount\<close>

definition DefaultPaginatePerPage :: int where
  "DefaultPaginatePerPage = 25"

text \<open>
  The condition that \<open>Paginate\<close> hands to \<open>ListDocs\<close>. In the \<open>reflect.Map\<close> case the
  code stores the merged mapping into the last slot of the caller's slice.
\<close>

definition Paginate_condition :: "iteration \<Rightarrow> gval list \<Rightarrow> int \<Rightarrow> int \<Rightarrow> failure + gval list" where
  "Paginate_condition ord condition page perPage =
     and_then (index condition (length condition - 1)) (\<lambda>lastCond.
     and_then (TypeOf_Kind lastCond) (\<lambda>kd.
       let opts = [(''limit'', GInt perPage), (''offset'', GInt (go_mul (go_sub page 1) perPage))] in
       if kd = KSlice then Inr (condition @ [GMap (ord opts)])
       else if kd = KMap then
         and_then (as_map lastCond) (\<lambda>lastCondMap.
           Inr (condition[length condition - 1 := GMap (ord (lo_Assign [lastCondMap, opts]))]))
       else Inr condition))"

definition Paginate :: "client \<Rightarrow> iteration \<Rightarrow> gval list \<Rightarrow> int \<Rightarrow> int \<Rightarrow> failure + (string \<times> gval) list" where
  "Paginate coll ord condition page perPage =
     (let page = (if page = 0 then 1 else page);
          perPage = (if perPage = 0 then DefaultPaginatePerPage else perPage)
      in if condition = [] then Inl (Panic IndexOutOfRange)
         else
           and_then (Paginate_condition ord condition page perPage) (\<lambda>condition'.
           and_then (ListDocs coll condition') (\<lambda>docs.
             Inr [(''docs'', GDocs docs), (''page'', GInt page), (''perPage'', GInt perPage)])))"

definition totalPage_of :: "int \<Rightarrow> int \<Rightarrow> int" where
  "totalPage_of cnt perPage =
     (if go_mod cnt perPage = 0 then go_div cnt perPage
      else go_add (go_div cnt perPage) 1)"

text \<open>
  After \<open>Paginate\<close> has returned, the caller's slice holds what \<open>Paginate\<close> stored into
  its last slot; \<open>CountDocs\<close> reads that slice.
\<close>

definition caller_condition :: "iteration \<Rightarrow> gval list \<Rightarrow> int \<Rightarrow> int \<Rightarrow> gval list" where
  "caller_condition ord condition page perPage =
     (case Paginate_condition ord condition page perPage of
        Inl _ \<Rightarrow> condition
      | Inr condition' \<Rightarrow> take (length condition) condition')"

definition PaginateWithCount :: "client \<Rightarrow> iteration \<Rightarrow> gval list \<Rightarrow> int \<Rightarrow> int \<Rightarrow> failure + (string \<times> gval) list" where
  "PaginateWithCount coll ord condition page perPage =
     (let perPage = (if perPage = 0 then DefaultPaginatePerPage else perPage);
          page = (if page = 0 then 1 else page)
      in and_then (Paginate coll ord condition page perPage) (\<lambda>val.
         and_then (CountDocs coll (caller_condition ord condition page perPage)) (\<lambda>cnt.
           Inr (lo_Assign [val, [(''count'', GInt cnt), (''totalPage'', GInt (totalPage_of cnt perPage))]]))))"

section \<open>The options mapping as the specification words it\<close>




section \<open>Two concrete clients\<close>

text \<open>A collection in which no query matches and no document exists.\<close>

definition no_docs :: client where
  "no_docs = \<lparr>GetAll = (\<lambda>q. Inr []), AggregateCount = (\<lambda>q. Inr (Some 0)),
              DocGet = (\<lambda>docId. Inl (Client NotFound ''missing''))\<rparr>"

text \<open>
  A collection whose count is sixty; as in Firestore, a count over a query limited to one
  document is one.
\<close>

definition sixty_docs :: client where
  "sixty_docs = \<lparr>GetAll = (\<lambda>q. Inr []),
                 AggregateCount = (\<lambda>q. Inr (Some (if Limit 1 \<in> set q then 1 else 60))),
                 DocGet = (\<lambda>docId. Inl (Client NotFound ''missing''))\<rparr>"

section \<open>Documents in memory\<close>

text \<open>
  \<open>BatchDocs\<close> hands each document to a caller-supplied function that may change it in
  place, so for this part maps and slices are objects in a store and values refer to them
  by address, as in Go: a \<open>map[string]any\<close> value is a reference to its table, a
  \<open>[]any\<close> value is a backing array with an offset, a length and a capacity. The store is
  a list of objects, an address is a position in it, and allocation appends.
\<close>

type_synonym addr = nat

datatype val =
    VNil
  | VBool bool
  | VInt int
  | VStr string
  | VTime nat
  | VRef nat
  | VSlice addr nat nat nat
  | VMap addr

datatype obj = OMap "(string \<times> val) list" | OArr "val list"

type_synonym heap = "obj list"

text \<open>
  A function on the store ends with a value, with a panic, or with no result: \<open>None\<close>
  stands for a recursion that does not come back (its fuel ran out) and for a reference
  that denotes no object of its kind, which no state of a Go program contains.
\<close>

type_synonym 'a outcome = "(failure + 'a) option"

definition seq :: "'a outcome \<Rightarrow> ('a \<Rightarrow> 'b outcome) \<Rightarrow> 'b outcome" where
  "seq r f = (case r of None \<Rightarrow> None | Some (Inl e) \<Rightarrow> Some (Inl e) | Some (Inr x) \<Rightarrow> f x)"

definition the_map :: "heap \<Rightarrow> addr \<Rightarrow> (string \<times> val) list option" where
  "the_map h a = (if a < length h then (case h ! a of OMap m \<Rightarrow> Some m | OArr _ \<Rightarrow> None) else None)"

definition the_arr :: "heap \<Rightarrow> addr \<Rightarrow> val list option" where
  "the_arr h a = (if a < length h then (case h ! a of OArr xs \<Rightarrow> Some xs | OMap _ \<Rightarrow> None) else None)"

text \<open>\<open>m[key]\<close> on the entries of a map: the zero value nil when the key is missing.\<close>

definition map_index :: "(string \<times> val) list \<Rightarrow> string \<Rightarrow> val" where
  "map_index m key = (case map_of m key of None \<Rightarrow> VNil | Some v \<Rightarrow> v)"

text \<open>The entries of a \<open>map[string]any\<close> value; a nil map has none.\<close>

definition entries :: "heap \<Rightarrow> val \<Rightarrow> (string \<times> val) list option" where
  "entries h v = (case v of VNil \<Rightarrow> Some [] | VMap a \<Rightarrow> the_map h a | _ \<Rightarrow> None)"

text \<open>
  Loading decoded document data into the store. \<open>Data()\<close> builds new maps and slices on
  every call, so each array and map of the data becomes a new object.
\<close>

fun load :: "fval \<Rightarrow> heap \<Rightarrow> val \<times> heap"
  and load_elems :: "fval list \<Rightarrow> heap \<Rightarrow> val list \<times> heap"
  and load_entries :: "(string \<times> fval) list \<Rightarrow> heap \<Rightarrow> (string \<times> val) list \<times> heap"
where
  "load FNil h = (VNil, h)"
| "load (FBool b) h = (VBool b, h)"
| "load (FInt n) h = (VInt n, h)"
| "load (FStr s) h = (VStr s, h)"
| "load (FTime t) h = (VTime t, h)"
| "load (FRef r) h = (VRef r, h)"
| "load (FArr xs) h =
     (case load_elems xs h of (vs, h') \<Rightarrow> (VSlice (length h') 0 (length vs) (length vs), h' @ [OArr vs]))"
| "load (FMap m) h =
     (case load_entries m h of (kvs, h') \<Rightarrow> (VMap (length h'), h' @ [OMap kvs]))"
| "load_elems [] h = ([], h)"
| "load_elems (x # xs) h =
     (case load x h of (v, h1) \<Rightarrow> (case load_elems xs h1 of (vs, h2) \<Rightarrow> (v # vs, h2)))"
| "load_entries [] h = ([], h)"
| "load_entries (kx # m) h =
     (case load (snd kx) h of (v, h1) \<Rightarrow>
        (case load_entries m h1 of (kvs, h2) \<Rightarrow> ((fst kx, v) # kvs, h2)))"

fun load_docs :: "doc list \<Rightarrow> heap \<Rightarrow> val list \<times> heap" where
  "load_docs [] h = ([], h)"
| "load_docs (d # ds) h =
     (case load (FMap d) h of (v, h1) \<Rightarrow> (case load_docs ds h1 of (vs, h2) \<Rightarrow> (v # vs, h2)))"

section \<open>helpers.go: deepCopyMap\<close>

text \<open>
  \<open>reflect.Value.SetMapIndex\<close> deletes the key when the element is the zero
  \<open>reflect.Value\<close>, which is what \<open>reflect.ValueOf(nil)\<close> is; \<open>reflect.Value.Set\<close>
  panics on it.
\<close>

definition SetMapIndex :: "heap \<Rightarrow> addr \<Rightarrow> string \<Rightarrow> val \<Rightarrow> heap" where
  "SetMapIndex h dst key elem =
     (case h ! dst of
        OMap m \<Rightarrow> h[dst := OMap (if elem = VNil then AList.delete key m else AList.update key elem m)]
      | OArr xs \<Rightarrow> h)"

definition SetIndex :: "heap \<Rightarrow> addr \<Rightarrow> nat \<Rightarrow> val \<Rightarrow> heap" where
  "SetIndex h dst i x =
     (case h ! dst of
        OArr xs \<Rightarrow> h[dst := OArr (xs[i := x])]
      | OMap m \<Rightarrow> h)"

text \<open>The loop over \<open>srcVal.MapKeys()\<close>; \<open>cp\<close> is the recursive call.\<close>

fun copy_keys :: "(heap \<Rightarrow> val \<Rightarrow> (val \<times> heap) outcome) \<Rightarrow> addr \<Rightarrow> (string \<times> val) list \<Rightarrow> heap \<Rightarrow> heap outcome" where
  "copy_keys cp dstMap [] h = Some (Inr h)"
| "copy_keys cp dstMap (kv # rest) h =
     seq (cp h (snd kv)) (\<lambda>r. copy_keys cp dstMap rest (SetMapIndex (snd r) dstMap (fst kv) (fst r)))"

text \<open>The loop \<open>for i := 0; i < srcVal.Len(); i++\<close>.\<close>

fun copy_elems :: "(heap \<Rightarrow> val \<Rightarrow> (val \<times> heap) outcome) \<Rightarrow> addr \<Rightarrow> nat \<Rightarrow> val list \<Rightarrow> heap \<Rightarrow> heap outcome" where
  "copy_elems cp dstSlice i [] h = Some (Inr h)"
| "copy_elems cp dstSlice i (x # rest) h =
     seq (cp h x) (\<lambda>r.
       if fst r = VNil then Some (Inl (Panic ReflectZeroValue))
       else copy_elems cp dstSlice (Suc i) rest (SetIndex (snd r) dstSlice i (fst r)))"

text \<open>
  \<open>deepCopyMap\<close>, with the depth of the recursion bounded by the first argument. The
  source reads the entries of \<open>src\<close> as it goes; the copy only allocates and writes to
  what it allocated, so the model reads them once.
\<close>

primrec deepCopyMap :: "nat \<Rightarrow> heap \<Rightarrow> val \<Rightarrow> (val \<times> heap) outcome" where
  "deepCopyMap 0 = (\<lambda>h src.
     case src of
       VMap a \<Rightarrow> None
     | VSlice a off len cap \<Rightarrow> None
     | _ \<Rightarrow> Some (Inr (src, h)))"
| "deepCopyMap (Suc fuel) = (\<lambda>h src.
     case src of
       VMap a \<Rightarrow>
         (case the_map h a of
            None \<Rightarrow> None
          | Some m \<Rightarrow>
              seq (copy_keys (deepCopyMap fuel) (length h) m (h @ [OMap []]))
                (\<lambda>h'. Some (Inr (VMap (length h), h'))))
     | VSlice a off len cap \<Rightarrow>
         (case the_arr h a of
            None \<Rightarrow> None
          | Some xs \<Rightarrow>
              if off + cap \<le> length xs \<and> len \<le> cap then
                seq (copy_elems (deepCopyMap fuel) (length h) 0 (take len (drop off xs))
                       (h @ [OArr (take len (drop off xs) @ replicate (cap - len) VNil)]))
                  (\<lambda>h'. Some (Inr (VSlice (length h) 0 len cap, h')))
              else None)
     | _ \<Rightarrow> Some (Inr (src, h)))"

section \<open>makeUpdateData\<close>

definition IdFieldName :: string where
  "IdFieldName = ''id''"

definition UpdatedAtFieldName :: string where
  "UpdatedAtFieldName = ''updatedAt''"

record update =
  Path :: string
  Value :: val

text \<open>
  The caller's function: it receives the copy and the store and returns a map value and
  the store as it left it.
\<close>

type_synonym transform = "val \<Rightarrow> heap \<Rightarrow> val \<times> heap"

text \<open>
  \<open>newVal != oldVal\<close> on two interface values: values of different dynamic types differ,
  and comparing two maps or two slices panics.
\<close>

definition go_neq :: "val \<Rightarrow> val \<Rightarrow> failure + bool" where
  "go_neq x y =
     (case x of
        VMap a \<Rightarrow> (case y of VMap b \<Rightarrow> Inl (Panic Uncomparable) | _ \<Rightarrow> Inr True)
      | VSlice a off len cap \<Rightarrow> (case y of VSlice b off' len' cap' \<Rightarrow> Inl (Panic Uncomparable) | _ \<Rightarrow> Inr True)
      | _ \<Rightarrow> Inr (x \<noteq> y))"

text \<open>The loop \<open>for key, oldVal := range oldDoc\<close>.\<close>

fun diff :: "(string \<times> val) list \<Rightarrow> (string \<times> val) list \<Rightarrow> update list \<Rightarrow> failure + update list" where
  "diff afterDoc [] updateData = Inr updateData"
| "diff afterDoc (kv # rest) updateData =
     (if fst kv = IdFieldName then diff afterDoc rest updateData
      else
        case go_neq (map_index afterDoc (fst kv)) (snd kv) of
          Inl e \<Rightarrow> Inl e
        | Inr changed \<Rightarrow>
            diff afterDoc rest
              (if changed then updateData @ [\<lparr>Path = fst kv, Value = map_index afterDoc (fst kv)\<rparr>]
               else updateData))"

definition makeUpdateData :: "nat \<Rightarrow> heap \<Rightarrow> val \<Rightarrow> transform option \<Rightarrow> (update list \<times> heap) outcome" where
  "makeUpdateData fuel h oldDoc batchFn =
     seq (deepCopyMap fuel h oldDoc) (\<lambda>copied.
       let after = (case batchFn of None \<Rightarrow> copied | Some f \<Rightarrow> f (fst copied) (snd copied));
           afterDoc = fst after;
           h' = snd after
       in case entries h' afterDoc of
            None \<Rightarrow> None
          | Some am \<Rightarrow>
              (case entries h' oldDoc of
                 None \<Rightarrow> None
               | Some om \<Rightarrow>
                   (case diff am om [] of
                      Inl e \<Rightarrow> Some (Inl e)
                    | Inr updateData \<Rightarrow> Some (Inr (updateData, h')))))"

section \<open>batchEach500Docs and BatchDocs\<close>

text \<open>
  The bulk writer and the clock belong to the environment. \<open>BwUpdate\<close> answers
  \<open>batch.Update\<close> (an error, or the write is accepted as a job) given the writes issued
  before it; \<open>JobResults\<close> answers \<open>job.Results()\<close>; \<open>Now\<close> is the clock at the n-th
  write. A job is a write with its position among the writes issued.
\<close>

type_synonym bwrite = "string \<times> update list"

type_synonym job = "nat \<times> bwrite"

datatype write_result = WriteResult nat

record bulk_writer =
  BwUpdate :: "bwrite list \<Rightarrow> bwrite \<Rightarrow> err option"
  JobResults :: "job \<Rightarrow> err + write_result"
  Now :: "nat \<Rightarrow> nat"

record memory =
  Heap :: heap
  Writes :: "bwrite list"

text \<open>\<open>lo.Chunk\<close>, which the code calls with size 500 only.\<close>

function lo_Chunk :: "'a list \<Rightarrow> nat \<Rightarrow> 'a list list" where
  "lo_Chunk collection n =
     (if n = 0 \<or> collection = [] then []
      else take n collection # lo_Chunk (drop n collection) n)"
  by pat_completeness auto
termination
  by (relation "measure (\<lambda>p. length (fst p))") auto

declare lo_Chunk.simps [simp del]

text \<open>The body of the loop over the documents of one group.\<close>

definition batch_doc ::
  "bulk_writer \<Rightarrow> nat \<Rightarrow> transform option \<Rightarrow> val \<Rightarrow> memory \<times> err list \<times> job list
     \<Rightarrow> (memory \<times> err list \<times> job list) outcome" where
  "batch_doc batch fuel batchFn doc acc =
     (case acc of (st, errs, jobs) \<Rightarrow>
        (case entries (Heap st) doc of
           None \<Rightarrow> None
         | Some m \<Rightarrow>
             (case map_index m IdFieldName of
                VStr docId \<Rightarrow>
                  seq (makeUpdateData fuel (Heap st) doc batchFn) (\<lambda>r.
                    if length (fst r) = 0 then Some (Inr (st\<lparr>Heap := snd r\<rparr>, errs, jobs))
                    else
                      let updateData = fst r @ [\<lparr>Path = UpdatedAtFieldName, Value = VTime (Now batch (length (Writes st)))\<rparr>];
                          w = (docId, updateData);
                          st' = st\<lparr>Heap := snd r, Writes := Writes st @ [w]\<rparr>
                      in case BwUpdate batch (Writes st) w of
                           Some e \<Rightarrow> Some (Inr (st', errs @ [e], jobs))
                         | None \<Rightarrow> Some (Inr (st', errs, jobs @ [(length (Writes st), w)])))
              | _ \<Rightarrow> Some (Inl (Panic TypeAssertion)))))"

fun batch_docs ::
  "bulk_writer \<Rightarrow> nat \<Rightarrow> transform option \<Rightarrow> val list \<Rightarrow> memory \<times> err list \<times> job list
     \<Rightarrow> (memory \<times> err list \<times> job list) outcome" where
  "batch_docs batch fuel batchFn [] acc = Some (Inr acc)"
| "batch_docs batch fuel batchFn (doc # docs) acc =
     seq (batch_doc batch fuel batchFn doc acc) (batch_docs batch fuel batchFn docs)"

text \<open>The loop over the jobs.\<close>

fun job_results :: "bulk_writer \<Rightarrow> job list \<Rightarrow> err list \<times> write_result list \<Rightarrow> err list \<times> write_result list" where
  "job_results batch [] acc = acc"
| "job_results batch (j # jobs) acc =
     (case JobResults batch j of
        Inl e \<Rightarrow> job_results batch jobs (fst acc @ [e], snd acc)
      | Inr r \<Rightarrow> job_results batch jobs (fst acc, snd acc @ [r]))"

definition batchEach500Docs ::
  "bulk_writer \<Rightarrow> nat \<Rightarrow> transform option \<Rightarrow> val list \<Rightarrow> memory
     \<Rightarrow> ((write_result list \<times> err option) \<times> memory) outcome" where
  "batchEach500Docs batch fuel batchFn docs st =
     (if length docs = 0 then Some (Inr (([], Some (ErrNew ''no docs to batch'')), st))
      else
        seq (batch_docs batch fuel batchFn (lo_Chunk docs 500 ! 0) (st, [], [])) (\<lambda>acc.
          case acc of (st', errs, jobs) \<Rightarrow>
            (case job_results batch jobs (errs, []) of (errs', results) \<Rightarrow>
               Some (Inr ((results, errors_Join errs'), st')))))"

text \<open>The loop over the groups, with its two accumulators.\<close>

fun BatchDocs_loop ::
  "bulk_writer \<Rightarrow> nat \<Rightarrow> transform option \<Rightarrow> val list list \<Rightarrow> memory \<Rightarrow> err list \<Rightarrow> write_result list
     \<Rightarrow> ((write_result list \<times> err option) \<times> memory) outcome" where
  "BatchDocs_loop batch fuel batchFn [] st errs batchResults =
     Some (Inr ((batchResults, errors_Join errs), st))"
| "BatchDocs_loop batch fuel batchFn (docs # groups) st errs batchResults =
     seq (batchEach500Docs batch fuel batchFn docs st) (\<lambda>r.
       case snd (fst r) of
         Some e \<Rightarrow> BatchDocs_loop batch fuel batchFn groups (snd r) (errs @ [e]) batchResults
       | None \<Rightarrow> BatchDocs_loop batch fuel batchFn groups (snd r) errs (batchResults @ fst (fst r)))"

definition BatchDocs ::
  "client \<Rightarrow> bulk_writer \<Rightarrow> nat \<Rightarrow> gval list \<Rightarrow> transform option \<Rightarrow> memory
     \<Rightarrow> ((write_result list \<times> err option) \<times> memory) outcome" where
  "BatchDocs coll batch fuel condition batchFn st =
     (case ListDocs coll condition of
        Inl (Panic p) \<Rightarrow> Some (Inl (Panic p))
      | Inl (Error e) \<Rightarrow> Some (Inr (([], Some e), st))
      | Inr docs \<Rightarrow>
          if length docs = 0 then Some (Inr (([], Some (ErrNew ''no docs to batch'')), st))
          else
            (case load_docs docs (Heap st) of (loaded, h) \<Rightarrow>
               BatchDocs_loop batch fuel batchFn (lo_Chunk loaded 500) (st\<lparr>Heap := h\<rparr>) [] []))"

section \<open>Reachability and allocation\<close>

text \<open>
  The addresses a value refers to, those an object refers to, and the addresses reachable
  from a value through the store. A slice counts as referring to its whole backing array.
\<close>

fun refs :: "val \<Rightarrow> addr set" where
  "refs (VMap a) = {a}"
| "refs (VSlice a off len cap) = {a}"
| "refs _ = {}"

fun obj_refs :: "obj \<Rightarrow> addr set" where
  "obj_refs (OMap m) = (\<Union>kv \<in> set m. refs (snd kv))"
| "obj_refs (OArr xs) = (\<Union>x \<in> set xs. refs x)"

inductive_set reach :: "heap \<Rightarrow> val \<Rightarrow> addr set" for h :: heap and v :: val where
  root: "a \<in> refs v \<Longrightarrow> a \<in> reach h v"
| step: "a \<in> reach h v \<Longrightarrow> a < length h \<Longrightarrow> b \<in> obj_refs (h ! a) \<Longrightarrow> b \<in> reach h v"

text \<open>
  \<open>extends h h'\<close>: the store \<open>h'\<close> is \<open>h\<close> followed by new objects, and the new
  objects refer to new objects only. \<open>allocates cp\<close>: whenever \<open>cp\<close> returns, it has
  extended the store in that way and returned a value that refers to new objects only.
  \<open>pending\<close> is the same condition while the element loop of \<open>deepCopyMap\<close> runs: the
  slots \<open>i\<close> to \<open>n\<close> of the new array at \<open>d\<close> still hold what \<open>reflect.Copy\<close> put
  there.
\<close>

definition extends :: "heap \<Rightarrow> heap \<Rightarrow> bool" where
  "extends h h' \<longleftrightarrow>
     length h \<le> length h' \<and> take (length h) h' = h \<and>
     (\<forall>a. length h \<le> a \<and> a < length h' \<longrightarrow> obj_refs (h' ! a) \<subseteq> {length h ..< length h'})"

definition allocates :: "(heap \<Rightarrow> val \<Rightarrow> (val \<times> heap) outcome) \<Rightarrow> bool" where
  "allocates cp \<longleftrightarrow>
     (\<forall>h v r. cp h v = Some (Inr r) \<longrightarrow> extends h (snd r) \<and> refs (fst r) \<subseteq> {length h ..< length (snd r)})"

definition pending :: "heap \<Rightarrow> heap \<Rightarrow> addr \<Rightarrow> nat \<Rightarrow> nat \<Rightarrow> bool" where
  "pending h0 h d i n \<longleftrightarrow>
     length h0 \<le> d \<and> d < length h \<and> take (length h0) h = h0 \<and>
     (\<forall>a. length h0 \<le> a \<and> a < length h \<and> a \<noteq> d \<longrightarrow> obj_refs (h ! a) \<subseteq> {length h0 ..< length h}) \<and>
     (\<exists>ys. h ! d = OArr ys \<and> (\<forall>j < length ys. j < i \<or> n \<le> j \<longrightarrow> refs (ys ! j) \<subseteq> {length h0 ..< length h}))"

section \<open>Concrete documents and transforms\<close>

text \<open>
  A document with a nested map and a nested array, and a transform that writes into both
  in place, through the map it is given.
\<close>

definition touch_nested :: transform where
  "touch_nested v hp =
     (case entries hp v of
        None \<Rightarrow> (v, hp)
      | Some m \<Rightarrow>
          (case map_index m ''m'' of
             VMap b \<Rightarrow>
               (case map_index m ''s'' of
                  VSlice c off len cap \<Rightarrow> (v, SetIndex (SetMapIndex hp b ''a'' (VInt 99)) c off (VInt 7))
                | _ \<Rightarrow> (v, SetMapIndex hp b ''a'' (VInt 99)))
           | _ \<Rightarrow> (v, hp)))"

definition nested_heap :: heap where
  "nested_heap =
     [OMap [(''a'', VInt 1)],
      OArr [VInt 1, VInt 2],
      OMap [(''id'', VStr ''d1''), (''m'', VMap 0), (''s'', VSlice 1 0 2 2)]]"

definition nested_copied :: heap where
  "nested_copied = nested_heap @
       [OMap [(''id'', VStr ''d1''), (''m'', VMap 4), (''s'', VSlice 5 0 2 2)],
        OMap [(''a'', VInt 1)],
        OArr [VInt 1, VInt 2]]"

definition nested_touched :: heap where
  "nested_touched = nested_heap @
       [OMap [(''id'', VStr ''d1''), (''m'', VMap 4), (''s'', VSlice 5 0 2 2)],
        OMap [(''a'', VInt 99)],
        OArr [VInt 7, VInt 2]]"

text \<open>
  \<open>fits n h v\<close>: every reference in \<open>v\<close> and below it denotes an object of its kind, every
  slice lies within its backing array, and maps and slices are nested at most \<open>n\<close> deep.
  Loaded document data is such a value, with \<open>n\<close> its depth.
\<close>

primrec fits :: "nat \<Rightarrow> heap \<Rightarrow> val \<Rightarrow> bool" where
  "fits 0 = (\<lambda>h v.
     case v of
       VMap a \<Rightarrow> False
     | VSlice a off len cap \<Rightarrow> False
     | _ \<Rightarrow> True)"
| "fits (Suc n) = (\<lambda>h v.
     case v of
       VMap a \<Rightarrow>
         (case the_map h a of
            None \<Rightarrow> False
          | Some m \<Rightarrow> list_all (\<lambda>kv. fits n h (snd kv)) m)
     | VSlice a off len cap \<Rightarrow>
         (case the_arr h a of
            None \<Rightarrow> False
          | Some xs \<Rightarrow> off + cap \<le> length xs \<and> len \<le> cap \<and> list_all (fits n h) (take len (drop off xs)))
     | _ \<Rightarrow> True)"

text \<open>\<open>grown h h'\<close>: the store \<open>h'\<close> is \<open>h\<close> followed by new objects.\<close>

definition grown :: "heap \<Rightarrow> heap \<Rightarrow> bool" where
  "grown h h' \<longleftrightarrow> length h \<le> length h' \<and> take (length h) h' = h"

text \<open>How deep arrays and maps are nested in document data.\<close>

fun depth :: "fval \<Rightarrow> nat" where
  "depth (FArr xs) = Suc (fold max (map depth xs) 0)"
| "depth (FMap m) = Suc (fold max (map (\<lambda>kx. depth (snd kx)) m) 0)"
| "depth _ = 0"

section \<open>The delta as the specification words it\<close>




definition unchanged :: transform where
  "unchanged v hp = (v, hp)"

definition rename :: transform where
  "rename v hp = (case v of VMap a \<Rightarrow> (v, SetMapIndex hp a ''name'' (VStr ''z'')) | _ \<Rightarrow> (v, hp))"


section \<open>The groups of a batch, one after the other\<close>

text \<open>
  The specification has every group submitted in turn, whatever became of the groups
  before it. \<open>run_groups\<close> does that and lists the outcome of each group:
  its write results and its joined error, if any.
\<close>

fun run_groups ::
  "bulk_writer \<Rightarrow> nat \<Rightarrow> transform option \<Rightarrow> val list list \<Rightarrow> memory
     \<Rightarrow> ((write_result list \<times> err option) list \<times> memory) outcome" where
  "run_groups batch fuel batchFn [] st = Some (Inr ([], st))"
| "run_groups batch fuel batchFn (docs # groups) st =
     seq (batchEach500Docs batch fuel batchFn docs st) (\<lambda>r.
     seq (run_groups batch fuel batchFn groups (snd r)) (\<lambda>rs.
       Some (Inr (fst r # fst rs, snd rs))))"

text \<open>Two flat documents, a bulk writer that rejects writes to the first, and a client
  that returns both.\<close>

definition two_docs_heap :: heap where
  "two_docs_heap =
     [OMap [(''id'', VStr ''d1''), (''name'', VStr ''x'')],
      OMap [(''id'', VStr ''d2''), (''name'', VStr ''y'')]]"

definition rejecting_d1 :: bulk_writer where
  "rejecting_d1 =
     \<lparr>BwUpdate = (\<lambda>ws w. if fst w = ''d1'' then Some (ErrNew ''rejected'') else None),
      JobResults = (\<lambda>j. Inr (WriteResult (fst j))),
      Now = (\<lambda>n. n)\<rparr>"

definition two_docs :: client where
  "two_docs =
     \<lparr>GetAll = (\<lambda>q. Inr [\<lparr>Data = [(''id'', FStr ''d1''), (''name'', FStr ''x'')], RefID = ''d1'', RefPath = ''c/d1''\<rparr>,
                           \<lparr>Data = [(''id'', FStr ''d2''), (''name'', FStr ''y'')], RefID = ''d2'', RefPath = ''c/d2''\<rparr>]),
      AggregateCount = (\<lambda>q. Inr (Some 2)),
      DocGet = (\<lambda>docId. Inl (Client NotFound ''missing''))\<rparr>"

section \<open>Lemmas: the query compiler\<close>

lemma and_then_Inr [simp]: "and_then (Inr x) f = f x" by (simp add: and_then_def)
lemma and_then_Inl [simp]: "and_then (Inl e) f = Inl e" by (simp add: and_then_def)
lemma and_then_assoc: "and_then (and_then r f) g = and_then r (\<lambda>x. and_then (f x) g)"
  by (cases r) simp_all

lemma equality_filters_eq: "equality_filters q m = q @ map (\<lambda>kv. Where (fst kv) ''=='' (snd kv)) m"
  unfolding equality_filters_def by (induction m arbitrary: q) simp_all

lemma where_clause_app: "where_clause w q = and_then (where_clause w []) (\<lambda>q'. Inr (q @ q'))"
  by (auto simp: where_clause_def and_then_def split: sum.splits)

lemma apply_order_app: "apply_order q s = q @ apply_order [] s"
  by (simp add: apply_order_def split: option.splits)

lemma foldl_apply_order_app: "foldl apply_order q ss = q @ foldl apply_order [] ss"
proof (induction ss arbitrary: q)
  case Nil show ?case by simp
next
  case (Cons s ss)
  show ?case using Cons[of "apply_order q s"] Cons[of "apply_order [] s"] apply_order_app[of q s] by simp
qed

lemma modifier_app: "modifier q kv = and_then (modifier [] kv) (\<lambda>q'. Inr (q @ q'))"
  using apply_order_app[of q] foldl_apply_order_app[of q]
  by (auto simp: modifier_def Let_def and_then_def split: sum.splits)

lemma modifiers_app: "modifiers q m = and_then (modifiers [] m) (\<lambda>q'. Inr (q @ q'))"
proof (induction m arbitrary: q)
  case Nil show ?case by simp
next
  case (Cons kv m)
  show ?case
  proof (cases "modifier [] kv")
    case (Inl e)
    then show ?thesis using modifier_app[of q kv] by simp
  next
    case (Inr q1)
    then have "modifier q kv = Inr (q @ q1)" using modifier_app[of q kv] by simp
    then show ?thesis using Inr Cons[of "q @ q1"] Cons[of q1]
      by (cases "modifiers [] m") simp_all
  qed
qed

lemma clause_app: "clause b w q = and_then (clause b w []) (\<lambda>q'. Inr (q @ q'))"
proof (cases "ValueOf_Kind w")
  case KSlice
  then show ?thesis using where_clause_app[of w q] by (simp add: clause_def)
next
  case KMap
  then show ?thesis using modifiers_app[of q]
    by (cases "as_map w") (simp_all add: clause_def equality_filters_eq)
qed (simp_all add: clause_def)

lemma MakeQuery_loop_app:
  "MakeQuery_loop cs q = and_then (MakeQuery_loop cs []) (\<lambda>q'. Inr (q @ q'))"
proof (induction cs arbitrary: q)
  case Nil show ?case by simp
next
  case (Cons w cs)
  show ?case
  proof (cases "clause (cs = []) w []")
    case (Inl e)
    then show ?thesis using clause_app[of "cs = []" w q] by simp
  next
    case (Inr q1)
    then have "clause (cs = []) w q = Inr (q @ q1)" using clause_app[of "cs = []" w q] by simp
    then show ?thesis using Inr Cons[of "q @ q1"] Cons[of q1]
      by (cases "MakeQuery_loop cs []") simp_all
  qed
qed

lemma MakeQuery_loop_split:
  "post \<noteq> [] \<Longrightarrow>
   MakeQuery_loop (pre @ post) q = and_then (MakeQuery_loop (pre @ [GMap []]) q) (MakeQuery_loop post)"
proof (induction pre arbitrary: q)
  case Nil
  then show ?case by (simp add: clause_def ValueOf_Kind_def as_map_def)
next
  case (Cons w pre)
  then show ?case by (cases "clause False w q") simp_all
qed

lemma MakeQuery_split:
  "post \<noteq> [] \<Longrightarrow>
   MakeQuery (pre @ post) =
     and_then (MakeQuery (pre @ [GMap []])) (\<lambda>q1. and_then (MakeQuery post) (\<lambda>q2. Inr (q1 @ q2)))"
proof (cases "MakeQuery_loop (pre @ [GMap []]) []")
  case (Inl e)
  assume "post \<noteq> []"
  then show ?thesis using Inl MakeQuery_loop_split[of post pre "[]"] by (simp add: MakeQuery_def)
next
  case (Inr q1)
  assume "post \<noteq> []"
  then have "MakeQuery_loop (pre @ post) [] = MakeQuery_loop post q1"
    using Inr MakeQuery_loop_split[of post pre "[]"] by simp
  also have "\<dots> = and_then (MakeQuery_loop post []) (\<lambda>q2. Inr (q1 @ q2))"
    by (rule MakeQuery_loop_app)
  finally show ?thesis using Inr by (simp add: MakeQuery_def)
qed












lemmas eval_defs = MakeQuery_def clause_def ValueOf_Kind_def TypeOf_Kind_def as_map_def as_slice_def
  as_string_def as_strings_def as_int_def index_def where_clause_def modifier_def apply_order_def
  parseOrderBy_def ToLower_def lower_char_def TrimSpace_def is_space_def equality_filters_def Let_def
























lemma CountDocs_trailing_map:
  "CountDocs coll (cs @ [GMap m]) = and_then (MakeQuery cs) (count_query coll)"
  by (simp add: CountDocs_def lo_Last_def TypeOf_Kind_def)

lemma CountDocs_no_trailing_map:
  "cs \<noteq> [] \<Longrightarrow> kind_of (last cs) \<noteq> KMap \<Longrightarrow> last cs \<noteq> GNil \<Longrightarrow>
   CountDocs coll cs = and_then (MakeQuery cs) (count_query coll)"
  by (simp add: CountDocs_def lo_Last_def TypeOf_Kind_def)

lemma caller_condition_trailing_map:
  "\<exists>m'. caller_condition ord (cs @ [GMap m]) page perPage = cs @ [GMap m']"
  by (simp add: caller_condition_def Paginate_condition_def index_def TypeOf_Kind_def as_map_def Let_def)

lemma PaginateWithCount_count:
  assumes "PaginateWithCount coll ord condition page perPage = Inr r"
  shows "\<exists>n page' perPage'. CountDocs coll (caller_condition ord condition page' perPage') = Inr n
           \<and> map_of r ''count'' = Some (GInt n)"
proof -
  let ?pp = "if perPage = 0 then DefaultPaginatePerPage else perPage"
  let ?p = "if page = 0 then 1 else page"
  from assms obtain val where v: "Paginate coll ord condition ?p ?pp = Inr val"
    by (cases "Paginate coll ord condition ?p ?pp") (simp_all add: PaginateWithCount_def Let_def)
  with assms obtain n where n: "CountDocs coll (caller_condition ord condition ?p ?pp) = Inr n"
    by (cases "CountDocs coll (caller_condition ord condition ?p ?pp)") (simp_all add: PaginateWithCount_def Let_def)
  with assms v have "r = lo_Assign [val, [(''count'', GInt n), (''totalPage'', GInt (totalPage_of n ?pp))]]"
    by (simp add: PaginateWithCount_def Let_def)
  then have "map_of r ''count'' = Some (GInt n)" by (simp add: lo_Assign_def update_conv')
  with n show ?thesis by blast
qed

lemmas run_defs = ListDocs_def FindDoc_def FindDoc_condition_def Paginate_def Paginate_condition_def
  PaginateWithCount_def CountDocs_def count_query_def caller_condition_def lo_Last_def lo_Assign_def
  docSnapsDataToMap_def makeDocResponse_def DefaultPaginatePerPage_def totalPage_of_def
  go_mul_def go_sub_def go_add_def go_div_def go_mod_def wrap64_def

section \<open>Lemmas: the store and the deep copy\<close>

lemma seq_simps [simp]:
  "seq None f = None" "seq (Some (Inl e)) f = Some (Inl e)" "seq (Some (Inr x)) f = f x"
  by (simp_all add: seq_def)

lemma seq_Inr: "seq r f = Some (Inr y) \<Longrightarrow> \<exists>x. r = Some (Inr x) \<and> f x = Some (Inr y)"
  by (cases r) (auto simp: seq_def split: sum.splits)

lemma extends_refl: "extends h h"
  by (auto simp: extends_def)

lemma extends_obj_refs:
  "extends h0 h \<Longrightarrow> length h0 \<le> a \<Longrightarrow> a < length h \<Longrightarrow> obj_refs (h ! a) \<subseteq> {length h0 ..< length h}"
  by (simp add: extends_def)

lemma extends_nth: "extends h h' \<Longrightarrow> a < length h \<Longrightarrow> h' ! a = h ! a"
  by (metis extends_def nth_take)

lemma extends_trans:
  assumes "extends h0 h1" "extends h1 h2"
  shows "extends h0 h2"
proof -
  have len: "length h0 \<le> length h1" "length h1 \<le> length h2" using assms by (auto simp: extends_def)
  have t: "take (length h0) h2 = h0"
  proof (rule nth_equalityI)
    show "length (take (length h0) h2) = length h0" using len by simp
  next
    fix i assume "i < length (take (length h0) h2)"
    then have i: "i < length h0" by simp
    then have "h2 ! i = h1 ! i" using extends_nth[OF assms(2)] len by simp
    also have "\<dots> = h0 ! i" using extends_nth[OF assms(1) i] .
    finally show "take (length h0) h2 ! i = h0 ! i" using i by simp
  qed
  have c: "obj_refs (h2 ! a) \<subseteq> {length h0 ..< length h2}" if a: "length h0 \<le> a" "a < length h2" for a
  proof (cases "a < length h1")
    case True
    then have "h2 ! a = h1 ! a" using extends_nth[OF assms(2)] by simp
    moreover have "obj_refs (h1 ! a) \<subseteq> {length h0 ..< length h1}"
      using assms(1) a True by (simp add: extends_def)
    ultimately show ?thesis using len by auto
  next
    case False
    then have "obj_refs (h2 ! a) \<subseteq> {length h1 ..< length h2}"
      using assms(2) a by (simp add: extends_def)
    then show ?thesis using len by auto
  qed
  show ?thesis unfolding extends_def using len t c by auto
qed

lemma extends_alloc:
  assumes "obj_refs ob \<subseteq> {length h ..< Suc (length h)}"
  shows "extends h (h @ [ob])"
  using assms by (auto simp: extends_def nth_append)

text \<open>Overwriting a new object with one that refers to new objects only.\<close>
lemma extends_update:
  assumes "extends h0 h" "length h0 \<le> d" "d < length h" "obj_refs ob \<subseteq> {length h0 ..< length h}"
  shows "extends h0 (h[d := ob])"
proof -
  have "take (length h0) (h[d := ob]) = h0"
    using assms by (simp add: extends_def)
  moreover have "obj_refs ((h[d := ob]) ! a) \<subseteq> {length h0 ..< length h}"
    if "length h0 \<le> a" "a < length h" for a
    using assms that by (cases "a = d") (auto simp: extends_def)
  ultimately show ?thesis using assms by (simp add: extends_def)
qed

lemma obj_refs_delete: "obj_refs (OMap (AList.delete k m)) \<subseteq> obj_refs (OMap m)"
  by (auto simp: AList.delete_eq)

lemma obj_refs_update: "obj_refs (OMap (AList.update k v m)) \<subseteq> obj_refs (OMap m) \<union> refs v"
proof (induction m)
  case Nil show ?case by simp
next
  case (Cons kv m)
  then show ?case by (cases kv) auto
qed

lemma obj_refs_list_update: "obj_refs (OArr (xs[i := x])) \<subseteq> obj_refs (OArr xs) \<union> refs x"
  by (auto dest!: subsetD[OF set_update_subset_insert])

lemma extends_SetMapIndex:
  assumes e: "extends h0 h" and d: "length h0 \<le> d" "d < length h"
      and v: "refs v \<subseteq> {length h0 ..< length h}"
  shows "extends h0 (SetMapIndex h d k v)"
proof (cases "h ! d")
  case (OArr xs)
  then show ?thesis using e by (simp add: SetMapIndex_def)
next
  case (OMap m)
  have old: "obj_refs (OMap m) \<subseteq> {length h0 ..< length h}"
    using extends_obj_refs[OF e d] OMap by simp
  have "obj_refs (OMap (AList.delete k m)) \<subseteq> {length h0 ..< length h}"
    using old obj_refs_delete[of k m] by blast
  moreover have "obj_refs (OMap (AList.update k v m)) \<subseteq> {length h0 ..< length h}"
    using old v obj_refs_update[of k v m] by blast
  ultimately have "obj_refs (OMap (if v = VNil then AList.delete k m else AList.update k v m)) \<subseteq> {length h0 ..< length h}"
    by (simp del: obj_refs.simps)
  then show ?thesis using OMap extends_update[OF e d] by (simp add: SetMapIndex_def)
qed

lemma extends_SetIndex:
  assumes e: "extends h0 h" and d: "length h0 \<le> d" "d < length h"
      and v: "refs v \<subseteq> {length h0 ..< length h}"
  shows "extends h0 (SetIndex h d i v)"
proof (cases "h ! d")
  case (OMap m)
  then show ?thesis using e by (simp add: SetIndex_def)
next
  case (OArr xs)
  have old: "obj_refs (OArr xs) \<subseteq> {length h0 ..< length h}"
    using extends_obj_refs[OF e d] OArr by simp
  have "obj_refs (OArr (xs[i := v])) \<subseteq> {length h0 ..< length h}"
    using old v obj_refs_list_update[of xs i v] by blast
  then show ?thesis using OArr extends_update[OF e d] by (simp add: SetIndex_def)
qed

lemma length_SetMapIndex [simp]: "length (SetMapIndex h d k v) = length h"
  by (simp add: SetMapIndex_def split: obj.splits)

lemma length_SetIndex [simp]: "length (SetIndex h d i v) = length h"
  by (simp add: SetIndex_def split: obj.splits)

lemma allocatesD:
  "allocates cp \<Longrightarrow> cp h v = Some (Inr r) \<Longrightarrow> extends h (snd r) \<and> refs (fst r) \<subseteq> {length h ..< length (snd r)}"
  unfolding allocates_def by blast

lemma extends_length: "extends h h' \<Longrightarrow> length h \<le> length h'"
  by (simp add: extends_def)

lemma extends_take: "extends h h' \<Longrightarrow> take (length h) h' = h"
  by (simp add: extends_def)

lemma pending_init:
  "pending h (h @ [OArr (elems @ replicate k VNil)]) (length h) 0 (length elems)"
proof -
  have "refs ((elems @ replicate k VNil) ! j) = {}" if "length elems \<le> j" "j < length elems + k" for j
    using that by (simp add: nth_append)
  then show ?thesis by (auto simp: pending_def nth_append)
qed

lemma pending_done:
  assumes "pending h0 h d n n"
  shows "extends h0 h"
proof -
  from assms obtain ys where d: "length h0 \<le> d" "d < length h" and t: "take (length h0) h = h0"
    and others: "\<And>a. length h0 \<le> a \<Longrightarrow> a < length h \<Longrightarrow> a \<noteq> d \<Longrightarrow> obj_refs (h ! a) \<subseteq> {length h0 ..< length h}"
    and ys: "h ! d = OArr ys" "\<And>j. j < length ys \<Longrightarrow> refs (ys ! j) \<subseteq> {length h0 ..< length h}"
    unfolding pending_def by (metis not_le_imp_less)
  have "obj_refs (OArr ys) \<subseteq> {length h0 ..< length h}"
  proof
    fix b assume "b \<in> obj_refs (OArr ys)"
    then obtain y where "y \<in> set ys" "b \<in> refs y" by auto
    then obtain j where "j < length ys" "ys ! j = y" by (auto simp: in_set_conv_nth)
    with ys(2)[of j] \<open>b \<in> refs y\<close> show "b \<in> {length h0 ..< length h}" by auto
  qed
  then have "obj_refs (h ! a) \<subseteq> {length h0 ..< length h}" if "length h0 \<le> a" "a < length h" for a
    using others[of a] that ys(1) by (cases "a = d") simp_all
  then show ?thesis using d t unfolding extends_def by auto
qed

lemma pending_step:
  assumes p: "pending h0 h d i n" and e: "extends h h2"
      and v: "refs v \<subseteq> {length h ..< length h2}" and i: "i < n"
  shows "pending h0 (SetIndex h2 d i v) d (Suc i) n"
proof -
  from p obtain ys where d: "length h0 \<le> d" "d < length h" and t: "take (length h0) h = h0"
    and others: "\<And>a. length h0 \<le> a \<Longrightarrow> a < length h \<Longrightarrow> a \<noteq> d \<Longrightarrow> obj_refs (h ! a) \<subseteq> {length h0 ..< length h}"
    and ys: "h ! d = OArr ys" "\<And>j. j < length ys \<Longrightarrow> j < i \<or> n \<le> j \<Longrightarrow> refs (ys ! j) \<subseteq> {length h0 ..< length h}"
    unfolding pending_def by blast
  have len: "length h0 \<le> length h" "length h \<le> length h2"
    using d extends_length[OF e] by simp_all
  have h2d: "h2 ! d = OArr ys" using extends_nth[OF e d(2)] ys(1) by simp
  let ?h = "SetIndex h2 d i v"
  have eq: "?h = h2[d := OArr (ys[i := v])]" using h2d by (simp add: SetIndex_def)
  have "take (length h0) h2 = take (length h0) (take (length h) h2)" using len by (simp add: min_def)
  also have "\<dots> = h0" using extends_take[OF e] t by simp
  finally have t2: "take (length h0) ?h = h0" using d by (simp add: eq)
  have o2: "obj_refs (?h ! a) \<subseteq> {length h0 ..< length ?h}"
    if a: "length h0 \<le> a" "a < length ?h" "a \<noteq> d" for a
  proof (cases "a < length h")
    case True
    then have "?h ! a = h ! a" using a extends_nth[OF e True] by (simp add: eq)
    then show ?thesis using others[OF a(1) True a(3)] len by auto
  next
    case False
    then have "obj_refs (h2 ! a) \<subseteq> {length h ..< length h2}"
      using extends_obj_refs[OF e, of a] a by simp
    then show ?thesis using a len by (auto simp: eq)
  qed
  have d2: "refs ((ys[i := v]) ! j) \<subseteq> {length h0 ..< length ?h}"
    if j: "j < length (ys[i := v])" "j < Suc i \<or> n \<le> j" for j
  proof (cases "j = i")
    case True
    then show ?thesis using j v len by auto
  next
    case False
    then have "refs (ys ! j) \<subseteq> {length h0 ..< length h}" using j by (intro ys(2)) auto
    moreover have "{length h0 ..< length h} \<subseteq> {length h0 ..< length ?h}" using len by (auto simp: eq)
    moreover have "(ys[i := v]) ! j = ys ! j" using False by simp
    ultimately show ?thesis by (simp only:)
  qed
  have "?h ! d = OArr (ys[i := v])" using d len by (simp add: eq)
  then show ?thesis unfolding pending_def using d len t2 o2 d2 by auto
qed

lemma copy_keys_extends:
  assumes cp: "allocates cp"
  shows "copy_keys cp d m h = Some (Inr h') \<Longrightarrow> extends h0 h \<Longrightarrow> length h0 \<le> d \<Longrightarrow> d < length h
          \<Longrightarrow> extends h0 h'"
proof (induction m arbitrary: h)
  case Nil
  then show ?case by simp
next
  case (Cons kv rest)
  from Cons.prems(1) obtain r where r: "cp h (snd kv) = Some (Inr r)"
    and rest: "copy_keys cp d rest (SetMapIndex (snd r) d (fst kv) (fst r)) = Some (Inr h')"
    by (auto dest: seq_Inr)
  from allocatesD[OF cp r] have e: "extends h (snd r)" and fr: "refs (fst r) \<subseteq> {length h ..< length (snd r)}"
    by auto
  have e0: "extends h0 (snd r)" by (rule extends_trans[OF Cons.prems(2) e])
  have len: "length h0 \<le> length h" "length h \<le> length (snd r)"
    using Cons.prems(2) e by (auto dest: extends_length)
  have fr0: "refs (fst r) \<subseteq> {length h0 ..< length (snd r)}" using fr len by auto
  have d: "d < length (snd r)" using Cons.prems(4) len by simp
  have "extends h0 (SetMapIndex (snd r) d (fst kv) (fst r))"
    by (rule extends_SetMapIndex[OF e0 Cons.prems(3) d fr0])
  from Cons.IH[OF rest this Cons.prems(3)] d show ?case by simp
qed

lemma copy_elems_extends:
  assumes cp: "allocates cp"
  shows "copy_elems cp d i xs h = Some (Inr h') \<Longrightarrow> pending h0 h d i (i + length xs) \<Longrightarrow> extends h0 h'"
proof (induction xs arbitrary: h i)
  case Nil
  then show ?case by (simp add: pending_done)
next
  case (Cons x rest)
  from Cons.prems(1) obtain r where r: "cp h x = Some (Inr r)"
    and rest: "copy_elems cp d (Suc i) rest (SetIndex (snd r) d i (fst r)) = Some (Inr h')"
    by (auto dest!: seq_Inr split: if_splits)
  from allocatesD[OF cp r] have e: "extends h (snd r)" and fr: "refs (fst r) \<subseteq> {length h ..< length (snd r)}"
    by auto
  have "pending h0 (SetIndex (snd r) d i (fst r)) d (Suc i) (i + length (x # rest))"
    by (rule pending_step[OF Cons.prems(2) e fr]) simp
  then have "pending h0 (SetIndex (snd r) d i (fst r)) d (Suc i) (Suc i + length rest)" by simp
  from Cons.IH[OF rest this] show ?case .
qed

lemma copy_keys_length:
  assumes cp: "allocates cp"
  shows "copy_keys cp d m h = Some (Inr h') \<Longrightarrow> length h \<le> length h'"
proof (induction m arbitrary: h)
  case Nil
  then show ?case by simp
next
  case (Cons kv rest)
  from Cons.prems(1) obtain r where r: "cp h (snd kv) = Some (Inr r)"
    and rest: "copy_keys cp d rest (SetMapIndex (snd r) d (fst kv) (fst r)) = Some (Inr h')"
    by (auto dest: seq_Inr)
  from allocatesD[OF cp r] have "length h \<le> length (snd r)" by (auto dest: extends_length)
  with Cons.IH[OF rest] show ?case by simp
qed

lemma copy_elems_length:
  assumes cp: "allocates cp"
  shows "copy_elems cp d i xs h = Some (Inr h') \<Longrightarrow> length h \<le> length h'"
proof (induction xs arbitrary: h i)
  case Nil
  then show ?case by simp
next
  case (Cons x rest)
  from Cons.prems(1) obtain r where r: "cp h x = Some (Inr r)"
    and rest: "copy_elems cp d (Suc i) rest (SetIndex (snd r) d i (fst r)) = Some (Inr h')"
    by (auto dest!: seq_Inr split: if_splits)
  from allocatesD[OF cp r] have "length h \<le> length (snd r)" by (auto dest: extends_length)
  with Cons.IH[OF rest] show ?case by simp
qed

lemma deepCopyMap_allocates: "allocates (deepCopyMap fuel)"
proof (induction fuel)
  case 0
  show ?case by (auto simp: allocates_def extends_refl split: val.splits)
next
  case (Suc fuel)
  show ?case unfolding allocates_def
  proof (intro allI impI)
    fix h v r assume run: "deepCopyMap (Suc fuel) h v = Some (Inr r)"
    show "extends h (snd r) \<and> refs (fst r) \<subseteq> {length h ..< length (snd r)}"
    proof (cases v)
      case (VMap a)
      with run obtain m h' where "the_map h a = Some m"
        and ck: "copy_keys (deepCopyMap fuel) (length h) m (h @ [OMap []]) = Some (Inr h')"
        and r: "r = (VMap (length h), h')"
        by (auto split: option.splits dest!: seq_Inr)
      have a: "extends h (h @ [OMap []])" by (rule extends_alloc) simp
      have e: "extends h h'" by (rule copy_keys_extends[OF Suc ck a]) simp_all
      have "length (h @ [OMap []]) \<le> length h'" by (rule copy_keys_length[OF Suc ck])
      with e show ?thesis using r by simp
    next
      case (VSlice a off len cap)
      with run obtain xs h' where "the_arr h a = Some xs" and ok: "off + cap \<le> length xs" "len \<le> cap"
        and ce: "copy_elems (deepCopyMap fuel) (length h) 0 (take len (drop off xs))
                    (h @ [OArr (take len (drop off xs) @ replicate (cap - len) VNil)]) = Some (Inr h')"
        and r: "r = (VSlice (length h) 0 len cap, h')"
        by (auto split: option.splits if_splits dest!: seq_Inr)
      have "pending h (h @ [OArr (take len (drop off xs) @ replicate (cap - len) VNil)]) (length h) 0
              (0 + length (take len (drop off xs)))"
        using pending_init[of h "take len (drop off xs)" "cap - len"] by simp
      from copy_elems_extends[OF Suc ce this] have e: "extends h h'" .
      have "length (h @ [OArr (take len (drop off xs) @ replicate (cap - len) VNil)]) \<le> length h'"
        by (rule copy_elems_length[OF Suc ce])
      with e show ?thesis using r by simp
    qed (use run in \<open>auto simp: extends_refl\<close>)
  qed
qed

lemma reach_fresh:
  assumes e: "extends h h'" and r: "refs v \<subseteq> {length h ..< length h'}"
  shows "reach h' v \<subseteq> {length h ..< length h'}"
proof
  fix a assume "a \<in> reach h' v"
  then show "a \<in> {length h ..< length h'}"
  proof induction
    case (root a)
    with r show ?case by auto
  next
    case (step a b)
    then have "obj_refs (h' ! a) \<subseteq> {length h ..< length h'}"
      using extends_obj_refs[OF e, of a] by simp
    with step show ?case by auto
  qed
qed

lemma deepCopyMap_fresh:
  assumes "deepCopyMap fuel h v = Some (Inr (v', h'))"
  shows "extends h h'" and "reach h' v' \<subseteq> {length h ..< length h'}"
proof -
  from allocatesD[OF deepCopyMap_allocates assms]
  have e: "extends h h'" and r: "refs v' \<subseteq> {length h ..< length h'}" by simp_all
  show "extends h h'" by (rule e)
  show "reach h' v' \<subseteq> {length h ..< length h'}" by (rule reach_fresh[OF e r])
qed

lemma deepCopyMap_source:
  assumes "deepCopyMap fuel h (VMap a) = Some (Inr r)"
  shows "a < length h"
  using assms by (cases fuel) (auto simp: the_map_def split: option.splits if_splits)

lemma unchanged_entries:
  assumes old: "\<forall>a < length h. h2 ! a = h ! a" and len: "length h \<le> length h2"
      and src: "\<And>a. v = VMap a \<Longrightarrow> a < length h"
  shows "entries h2 v = entries h v"
proof (cases v)
  case (VMap a)
  with src have "a < length h" by simp
  with old len VMap show ?thesis by (simp add: entries_def the_map_def)
qed (simp_all add: entries_def)

lemmas heap_defs = the_map_def the_arr_def entries_def map_index_def SetMapIndex_def SetIndex_def
  makeUpdateData_def go_neq_def IdFieldName_def UpdatedAtFieldName_def Let_def

lemma nested_copy:
  "deepCopyMap 2 nested_heap (VMap 2) =
     Some (Inr (VMap 3, nested_heap @
       [OMap [(''id'', VStr ''d1''), (''m'', VMap 4), (''s'', VSlice 5 0 2 2)],
        OMap [(''a'', VInt 1)],
        OArr [VInt 1, VInt 2]]))"
  by (simp add: nested_heap_def numeral_2_eq_2 heap_defs)

lemma grown_refl: "grown h h"
  by (simp add: grown_def)

lemma extends_grown: "extends h h' \<Longrightarrow> grown h h'"
  by (simp add: extends_def grown_def)

lemma grown_nth: "grown h h' \<Longrightarrow> a < length h \<Longrightarrow> h' ! a = h ! a"
  by (metis grown_def nth_take)

lemma grown_trans:
  assumes "grown h0 h1" "grown h1 h2"
  shows "grown h0 h2"
proof -
  have len: "length h0 \<le> length h1" "length h1 \<le> length h2" using assms by (auto simp: grown_def)
  have "take (length h0) h2 = take (length h0) (take (length h1) h2)" using len by (simp add: min_def)
  also have "\<dots> = h0" using assms by (simp add: grown_def)
  finally show ?thesis using len by (simp add: grown_def)
qed

lemma grown_update: "grown h0 h \<Longrightarrow> length h0 \<le> d \<Longrightarrow> grown h0 (h[d := ob])"
  by (simp add: grown_def)

lemma grown_SetMapIndex: "grown h0 h \<Longrightarrow> length h0 \<le> d \<Longrightarrow> grown h0 (SetMapIndex h d k v)"
  by (cases "h ! d") (simp_all add: SetMapIndex_def grown_update)

lemma grown_SetIndex: "grown h0 h \<Longrightarrow> length h0 \<le> d \<Longrightarrow> grown h0 (SetIndex h d i v)"
  by (cases "h ! d") (simp_all add: SetIndex_def grown_update)

lemma grown_append: "grown h (h @ ext)"
  by (simp add: grown_def)

lemma grown_the_map: "grown h h' \<Longrightarrow> the_map h a = Some m \<Longrightarrow> the_map h' a = Some m"
  using grown_nth[of h h' a] by (auto simp: the_map_def grown_def split: if_splits)

lemma grown_the_arr: "grown h h' \<Longrightarrow> the_arr h a = Some xs \<Longrightarrow> the_arr h' a = Some xs"
  using grown_nth[of h h' a] by (auto simp: the_arr_def grown_def split: if_splits)

lemma fits_grown: "fits n h v \<Longrightarrow> grown h h' \<Longrightarrow> fits n h' v"
proof (induction n arbitrary: v)
  case 0
  then show ?case by (cases v) simp_all
next
  case (Suc n)
  show ?case
  proof (cases v)
    case (VMap a)
    with Suc.prems obtain m where m: "the_map h a = Some m" and all: "list_all (\<lambda>kv. fits n h (snd kv)) m"
      by (auto split: option.splits)
    from all Suc.IH Suc.prems(2) have "list_all (\<lambda>kv. fits n h' (snd kv)) m"
      by (auto simp: list_all_iff)
    with grown_the_map[OF Suc.prems(2) m] VMap show ?thesis by simp
  next
    case (VSlice a off len cap)
    with Suc.prems obtain xs where xs: "the_arr h a = Some xs" and ok: "off + cap \<le> length xs" "len \<le> cap"
      and all: "list_all (fits n h) (take len (drop off xs))"
      by (auto split: option.splits)
    from all Suc.IH Suc.prems(2) have "list_all (fits n h') (take len (drop off xs))"
      by (auto simp: list_all_iff)
    with grown_the_arr[OF Suc.prems(2) xs] ok VSlice show ?thesis by simp
  qed (use Suc.prems in simp_all)
qed

lemma copy_keys_returns:
  assumes cp: "allocates cp" and ret: "\<And>h v. fits n h v \<Longrightarrow> \<exists>r. cp h v = Some r"
  shows "list_all (\<lambda>kv. fits n h0 (snd kv)) m \<Longrightarrow> grown h0 h \<Longrightarrow> length h0 \<le> d
          \<Longrightarrow> \<exists>r. copy_keys cp d m h = Some r"
proof (induction m arbitrary: h)
  case Nil
  show ?case by simp
next
  case (Cons kv rest)
  from Cons.prems have "fits n h (snd kv)" by (auto intro: fits_grown)
  from ret[OF this] obtain r where r: "cp h (snd kv) = Some r" ..
  show ?case
  proof (cases r)
    case (Inl e)
    with r show ?thesis by simp
  next
    case (Inr x)
    with r allocatesD[OF cp, of h "snd kv" x] have "grown h (snd x)" by (auto intro: extends_grown)
    with Cons.prems(2) have "grown h0 (snd x)" by (rule grown_trans)
    then have "grown h0 (SetMapIndex (snd x) d (fst kv) (fst x))"
      using Cons.prems(3) by (rule grown_SetMapIndex)
    from Cons.IH[OF _ this Cons.prems(3)] Cons.prems(1) r Inr show ?thesis by simp
  qed
qed

lemma copy_elems_returns:
  assumes cp: "allocates cp" and ret: "\<And>h v. fits n h v \<Longrightarrow> \<exists>r. cp h v = Some r"
  shows "list_all (fits n h0) xs \<Longrightarrow> grown h0 h \<Longrightarrow> length h0 \<le> d
          \<Longrightarrow> \<exists>r. copy_elems cp d i xs h = Some r"
proof (induction xs arbitrary: h i)
  case Nil
  show ?case by simp
next
  case (Cons x rest)
  from Cons.prems have "fits n h x" by (auto intro: fits_grown)
  from ret[OF this] obtain r where r: "cp h x = Some r" ..
  show ?case
  proof (cases r)
    case (Inl e)
    with r show ?thesis by simp
  next
    case (Inr y)
    with r allocatesD[OF cp, of h x y] have "grown h (snd y)" by (auto intro: extends_grown)
    with Cons.prems(2) have "grown h0 (snd y)" by (rule grown_trans)
    then have "grown h0 (SetIndex (snd y) d i (fst y))"
      using Cons.prems(3) by (rule grown_SetIndex)
    from Cons.IH[OF _ this Cons.prems(3), of "Suc i"] Cons.prems(1) r Inr show ?thesis by simp
  qed
qed

lemma deepCopyMap_returns: "fits n h v \<Longrightarrow> \<exists>r. deepCopyMap n h v = Some r"
proof (induction n arbitrary: h v)
  case 0
  then show ?case by (cases v) simp_all
next
  case (Suc n)
  show ?case
  proof (cases v)
    case (VMap a)
    with Suc.prems obtain m where m: "the_map h a = Some m" and all: "list_all (\<lambda>kv. fits n h (snd kv)) m"
      by (auto split: option.splits)
    have g: "grown h (h @ [OMap []])" by (rule grown_append)
    from copy_keys_returns[OF deepCopyMap_allocates Suc.IH all g order_refl]
    obtain r where "copy_keys (deepCopyMap n) (length h) m (h @ [OMap []]) = Some r" by auto
    with VMap m show ?thesis by (cases r) simp_all
  next
    case (VSlice a off len cap)
    with Suc.prems obtain xs where xs: "the_arr h a = Some xs" and ok: "off + cap \<le> length xs" "len \<le> cap"
      and all: "list_all (fits n h) (take len (drop off xs))"
      by (auto split: option.splits)
    have g: "grown h (h @ [OArr (take len (drop off xs) @ replicate (cap - len) VNil)])"
      by (rule grown_append)
    from copy_elems_returns[OF deepCopyMap_allocates Suc.IH all g order_refl]
    obtain r where "copy_elems (deepCopyMap n) (length h) 0 (take len (drop off xs))
        (h @ [OArr (take len (drop off xs) @ replicate (cap - len) VNil)]) = Some r" by auto
    with VSlice xs ok show ?thesis by (cases r) simp_all
  qed simp_all
qed

text \<open>Loaded document data fits its own depth, so that bound is enough for the copy.\<close>

lemma fits_mono: "fits n h v \<Longrightarrow> n \<le> n' \<Longrightarrow> fits n' h v"
proof (induction n arbitrary: n' v)
  case 0
  then show ?case by (cases n'; cases v) simp_all
next
  case (Suc n)
  then obtain k where n': "n' = Suc k" and le: "n \<le> k" by (cases n') auto
  show ?case
  proof (cases v)
    case (VMap a)
    with Suc.prems(1) obtain m where m: "the_map h a = Some m" and all: "list_all (\<lambda>kv. fits n h (snd kv)) m"
      by (auto split: option.splits)
    from all Suc.IH le have "list_all (\<lambda>kv. fits k h (snd kv)) m" by (auto simp: list_all_iff)
    with m VMap n' show ?thesis by simp
  next
    case (VSlice a off len cap)
    with Suc.prems(1) obtain xs where xs: "the_arr h a = Some xs" and ok: "off + cap \<le> length xs" "len \<le> cap"
      and all: "list_all (fits n h) (take len (drop off xs))"
      by (auto split: option.splits)
    from all Suc.IH le have "list_all (fits k h) (take len (drop off xs))" by (auto simp: list_all_iff)
    with xs ok VSlice n' show ?thesis by simp
  qed (use n' in simp_all)
qed

lemma fold_max_ge: "(a::nat) \<le> fold max xs a"
  by (induction xs arbitrary: a) (auto intro: order_trans[OF max.cobounded2])

lemma fold_max_mono: "(a::nat) \<le> b \<Longrightarrow> fold max xs a \<le> fold max xs b"
  by (induction xs arbitrary: a b) (auto simp: max.mono)

lemma fold_max_Cons: "fold max (x # xs) (0::nat) \<ge> x \<and> fold max (x # xs) 0 \<ge> fold max xs 0"
  using fold_max_ge[of "max x 0" xs] fold_max_mono[of 0 "max x 0" xs] by simp

lemma load_fits:
  "load x h = (v, h') \<Longrightarrow> grown h h' \<and> fits (depth x) h' v"
  "load_elems xs h = (vs, h') \<Longrightarrow> grown h h' \<and> list_all (fits (fold max (map depth xs) 0) h') vs"
  "load_entries m h = (kvs, h') \<Longrightarrow>
     grown h h' \<and> list_all (\<lambda>kv. fits (fold max (map (\<lambda>kx. depth (snd kx)) m) 0) h' (snd kv)) kvs"
proof (induction x h and xs h and m h arbitrary: v h' and vs h' and kvs h'
       rule: load_load_elems_load_entries.induct)
  case (7 xs h)
  obtain ws h1 where l: "load_elems xs h = (ws, h1)" by (cases "load_elems xs h") auto
  from "7.IH"[OF l] have g: "grown h h1" and f: "list_all (fits (fold max (map depth xs) 0) h1) ws" by auto
  from "7.prems" l have v: "v = VSlice (length h1) 0 (length ws) (length ws)" and h': "h' = h1 @ [OArr ws]"
    by auto
  have g1: "grown h1 h'" unfolding h' by (rule grown_append)
  have "list_all (fits (fold max (map depth xs) 0) h') ws"
    using f g1 by (auto simp: list_all_iff intro: fits_grown)
  moreover have "the_arr h' (length h1) = Some ws" by (simp add: h' the_arr_def)
  ultimately have "fits (depth (FArr xs)) h' v" by (simp add: v)
  with grown_trans[OF g g1] show ?case by simp
next
  case (8 m h)
  obtain ws h1 where l: "load_entries m h = (ws, h1)" by (cases "load_entries m h") auto
  from "8.IH"[OF l] have g: "grown h h1"
    and f: "list_all (\<lambda>kv. fits (fold max (map (\<lambda>kx. depth (snd kx)) m) 0) h1 (snd kv)) ws" by auto
  from "8.prems" l have v: "v = VMap (length h1)" and h': "h' = h1 @ [OMap ws]" by auto
  have g1: "grown h1 h'" unfolding h' by (rule grown_append)
  have "list_all (\<lambda>kv. fits (fold max (map (\<lambda>kx. depth (snd kx)) m) 0) h' (snd kv)) ws"
    using f g1 by (auto simp: list_all_iff intro: fits_grown)
  moreover have "the_map h' (length h1) = Some ws" by (simp add: h' the_map_def)
  ultimately have "fits (depth (FMap m)) h' v" by (simp add: v)
  with grown_trans[OF g g1] show ?case by simp
next
  case (10 x xs h)
  obtain w h1 where l1: "load x h = (w, h1)" by (cases "load x h") auto
  obtain ws h2 where l2: "load_elems xs h1 = (ws, h2)" by (cases "load_elems xs h1") auto
  from "10.IH"(1)[OF l1] have g1: "grown h h1" and f1: "fits (depth x) h1 w" by auto
  from "10.IH"(2)[OF l1[symmetric] l2] have g2: "grown h1 h2"
    and f2: "list_all (fits (fold max (map depth xs) 0) h2) ws" by auto
  from "10.prems" l1 l2 have vs: "vs = w # ws" and h': "h' = h2" by auto
  let ?d = "fold max (map depth (x # xs)) 0"
  have d: "depth x \<le> ?d" "fold max (map depth xs) 0 \<le> ?d"
    using fold_max_Cons[of "depth x" "map depth xs"] by simp_all
  have "fits ?d h2 w" using fits_mono[OF fits_grown[OF f1 g2] d(1)] .
  moreover have "list_all (fits ?d h2) ws" using f2 d(2) by (auto simp: list_all_iff intro: fits_mono)
  ultimately show ?case using grown_trans[OF g1 g2] vs h' by simp
next
  case (12 kx m h)
  obtain w h1 where l1: "load (snd kx) h = (w, h1)" by (cases "load (snd kx) h") auto
  obtain ws h2 where l2: "load_entries m h1 = (ws, h2)" by (cases "load_entries m h1") auto
  from "12.IH"(1)[OF l1] have g1: "grown h h1" and f1: "fits (depth (snd kx)) h1 w" by auto
  from "12.IH"(2)[OF l1[symmetric] l2] have g2: "grown h1 h2"
    and f2: "list_all (\<lambda>kv. fits (fold max (map (\<lambda>kx. depth (snd kx)) m) 0) h2 (snd kv)) ws" by auto
  from "12.prems" l1 l2 have kvs: "kvs = (fst kx, w) # ws" and h': "h' = h2" by auto
  let ?d = "fold max (map (\<lambda>kx. depth (snd kx)) (kx # m)) 0"
  have d: "depth (snd kx) \<le> ?d" "fold max (map (\<lambda>kx. depth (snd kx)) m) 0 \<le> ?d"
    using fold_max_Cons[of "depth (snd kx)" "map (\<lambda>kx. depth (snd kx)) m"] by simp_all
  have "fits ?d h2 w" using fits_mono[OF fits_grown[OF f1 g2] d(1)] .
  moreover have "list_all (\<lambda>kv. fits ?d h2 (snd kv)) ws"
    using f2 d(2) by (auto simp: list_all_iff intro: fits_mono)
  ultimately show ?case using grown_trans[OF g1 g2] kvs h' by simp
qed (auto simp: grown_refl)







lemma makeUpdateData_nested_panics:
  "makeUpdateData 2 nested_heap (VMap 2) (Some unchanged) = Some (Inl (Panic Uncomparable))"
  by (simp add: unchanged_def nested_heap_def numeral_2_eq_2 heap_defs)

lemma seq_assoc: "seq (seq r f) g = seq r (\<lambda>x. seq (f x) g)"
  by (cases r) (auto simp: seq_def split: sum.splits)

lemma BatchDocs_loop_run_groups:
  "BatchDocs_loop batch fuel batchFn groups st errs batchResults =
     seq (run_groups batch fuel batchFn groups st) (\<lambda>r.
       Some (Inr ((batchResults @ concat (map fst (filter (\<lambda>out. snd out = None) (fst r))),
                   errors_Join (errs @ List.map_filter snd (fst r))),
                  snd r)))"
proof (induction groups arbitrary: st errs batchResults)
  case Nil
  show ?case by (simp add: List.map_filter_simps)
next
  case (Cons docs groups)
  show ?case
  proof (cases "batchEach500Docs batch fuel batchFn docs st")
    case None
    then show ?thesis by simp
  next
    case (Some r)
    show ?thesis
    proof (cases r)
      case (Inl e)
      with Some show ?thesis by simp
    next
      case (Inr x)
      obtain res er st1 where x: "x = ((res, er), st1)" by (cases x) auto
      show ?thesis
      proof (cases "run_groups batch fuel batchFn groups st1")
        case None
        with Some Inr x show ?thesis by (cases er) (simp_all add: Cons.IH)
      next
        case rs: (Some rs)
        show ?thesis using Some Inr x rs
          by (cases er; cases rs) (simp_all add: Cons.IH List.map_filter_simps)
      qed
    qed
  qed
qed

lemma run_groups_length:
  "run_groups batch fuel batchFn groups st = Some (Inr (outs, st')) \<Longrightarrow> length outs = length groups"
proof (induction groups arbitrary: st outs)
  case Nil
  then show ?case by simp
next
  case (Cons docs groups)
  from Cons.prems obtain r where r: "batchEach500Docs batch fuel batchFn docs st = Some (Inr r)"
    and rest: "seq (run_groups batch fuel batchFn groups (snd r)) (\<lambda>rs. Some (Inr (fst r # fst rs, snd rs))) = Some (Inr (outs, st'))"
    by (auto dest!: seq_Inr)
  from rest obtain rs where rs: "run_groups batch fuel batchFn groups (snd r) = Some (Inr rs)"
    and o: "outs = fst r # fst rs" "st' = snd rs"
    by (auto dest!: seq_Inr)
  from Cons.IH[of "snd r" "fst rs"] rs o show ?case by simp
qed

lemmas batch_defs = batchEach500Docs_def batch_doc_def lo_Chunk.simps errors_Join_def
  List.map_filter_simps rename_def

section \<open>The final mapping: query modifiers\<close>



section \<open>A mapping that is not the last element: equality filters\<close>

text \<open>
  C4. A mapping clause followed by at least one more clause contributes one equality
  filter \<open>key == value\<close> for each of its entries, between the calls of the clauses
  before it and the calls of the clauses after it; it never panics and never contributes a
  modifier. In particular a key \<open>limit\<close> there becomes a filter on a field named limit,
  as the evaluation that follows the theorem shows.
\<close>

theorem nonfinal_mapping_is_equality_filters:
  assumes "post \<noteq> []"
  shows "MakeQuery (pre @ GMap m # post) =
     and_then (MakeQuery (pre @ [GMap []])) (\<lambda>q1.
     and_then (MakeQuery post) (\<lambda>q2.
       Inr (q1 @ map (\<lambda>kv. Where (fst kv) ''=='' (snd kv)) m @ q2)))"
proof -
  have "MakeQuery (GMap m # post) =
          and_then (MakeQuery post) (\<lambda>q2. Inr (map (\<lambda>kv. Where (fst kv) ''=='' (snd kv)) m @ q2))"
    using assms MakeQuery_loop_app[of post "equality_filters [] m"]
    by (simp add: MakeQuery_def clause_def ValueOf_Kind_def as_map_def equality_filters_eq)
  then show ?thesis
    using MakeQuery_split[of "GMap m # post" pre]
    by (cases "MakeQuery (pre @ [GMap []])"; cases "MakeQuery post") simp_all
qed

theorem nonfinal_mapping_is_equality_filters_witness:
  "[GSlice [GStr ''uid'', GStr ''=='', GStr ''abc'']] \<noteq> []
   \<and> MakeQuery ([GSlice [GStr ''deletedAt'', GStr ''=='', GNil]] @ GMap [(''limit'', GInt 10)] #
         [GSlice [GStr ''uid'', GStr ''=='', GStr ''abc'']])
      = Inr [Where ''deletedAt'' ''=='' GNil, Where ''limit'' ''=='' (GInt 10), Where ''uid'' ''=='' (GStr ''abc'')]"
proof -
  let ?pre = "[GSlice [GStr ''deletedAt'', GStr ''=='', GNil]]"
  let ?post = "[GSlice [GStr ''uid'', GStr ''=='', GStr ''abc'']]"
  have ne: "?post \<noteq> []" by simp
  have "MakeQuery (?pre @ GMap [(''limit'', GInt 10)] # ?post) =
     and_then (MakeQuery (?pre @ [GMap []])) (\<lambda>q1.
     and_then (MakeQuery ?post) (\<lambda>q2.
       Inr (q1 @ map (\<lambda>kv. Where (fst kv) ''=='' (snd kv)) [(''limit'', GInt 10)] @ q2)))"
    by (rule nonfinal_mapping_is_equality_filters[OF ne])
  also have "\<dots> = Inr [Where ''deletedAt'' ''=='' GNil, Where ''limit'' ''=='' (GInt 10), Where ''uid'' ''=='' (GStr ''abc'')]"
    by (simp add: eval_defs)
  finally show ?thesis using ne by simp
qed

section \<open>Paginate and PaginateWithCount at page 2, 25 per page\<close>



section \<open>CountDocs and a trailing mapping\<close>

text \<open>
  C7, as amended. For a condition sequence \<open>cs @ [GMap m]\<close>, \<open>CountDocs\<close> counts the
  query compiled from \<open>cs\<close> alone, so nothing in the trailing mapping affects the result.
  That result equals \<open>CountDocs\<close> of \<open>cs\<close> when \<open>cs\<close> is not empty and its last
  element is neither a mapping nor nil. The count that \<open>PaginateWithCount\<close> returns for
  such a sequence is the count of the query compiled from \<open>cs\<close>, without the limit and
  offset of the page.
\<close>

theorem CountDocs_ignores_trailing_mapping:
  "CountDocs coll (cs @ [GMap m]) = and_then (MakeQuery cs) (count_query coll)
   \<and> CountDocs coll (cs @ [GMap m]) = CountDocs coll (cs @ [GMap m'])
   \<and> (cs \<noteq> [] \<and> kind_of (last cs) \<noteq> KMap \<and> last cs \<noteq> GNil \<longrightarrow>
        CountDocs coll (cs @ [GMap m]) = CountDocs coll cs)
   \<and> (\<forall>r. PaginateWithCount coll ord (cs @ [GMap m]) page perPage = Inr r \<longrightarrow>
        (\<exists>n. and_then (MakeQuery cs) (count_query coll) = Inr n \<and> map_of r ''count'' = Some (GInt n)))"
proof (intro conjI allI impI)
  show "CountDocs coll (cs @ [GMap m]) = and_then (MakeQuery cs) (count_query coll)"
    by (rule CountDocs_trailing_map)
  show "CountDocs coll (cs @ [GMap m]) = CountDocs coll (cs @ [GMap m'])"
    by (simp only: CountDocs_trailing_map)
next
  assume "cs \<noteq> [] \<and> kind_of (last cs) \<noteq> KMap \<and> last cs \<noteq> GNil"
  then show "CountDocs coll (cs @ [GMap m]) = CountDocs coll cs"
    by (simp add: CountDocs_trailing_map CountDocs_no_trailing_map)
next
  fix r assume "PaginateWithCount coll ord (cs @ [GMap m]) page perPage = Inr r"
  from PaginateWithCount_count[OF this] obtain n page' perPage' where
    n: "CountDocs coll (caller_condition ord (cs @ [GMap m]) page' perPage') = Inr n"
    and c: "map_of r ''count'' = Some (GInt n)" by blast
  from caller_condition_trailing_map[of ord cs m page' perPage'] obtain m' where
    "caller_condition ord (cs @ [GMap m]) page' perPage' = cs @ [GMap m']" ..
  with n have "and_then (MakeQuery cs) (count_query coll) = Inr n"
    by (simp only: CountDocs_trailing_map)
  with c show "\<exists>n. and_then (MakeQuery cs) (count_query coll) = Inr n \<and> map_of r ''count'' = Some (GInt n)"
    by blast
qed

theorem CountDocs_ignores_trailing_mapping_witness:
  "[GSlice [GStr ''uid'', GStr ''=='', GStr ''abc'']] \<noteq> []
   \<and> kind_of (last [GSlice [GStr ''uid'', GStr ''=='', GStr ''abc'']]) \<noteq> KMap
   \<and> last [GSlice [GStr ''uid'', GStr ''=='', GStr ''abc'']] \<noteq> GNil
   \<and> CountDocs sixty_docs ([GSlice [GStr ''uid'', GStr ''=='', GStr ''abc'']] @ [GMap [(''limit'', GInt 1)]]) = Inr 60
   \<and> CountDocs sixty_docs [GSlice [GStr ''uid'', GStr ''=='', GStr ''abc'']] = Inr 60
   \<and> PaginateWithCount sixty_docs (\<lambda>m. m)
        ([GSlice [GStr ''uid'', GStr ''=='', GStr ''abc'']] @ [GMap [(''limit'', GInt 1)]]) 1 25
       = Inr [(''docs'', GDocs []), (''page'', GInt 1), (''perPage'', GInt 25),
              (''count'', GInt 60), (''totalPage'', GInt 3)]
   \<and> (\<exists>n. and_then (MakeQuery [GSlice [GStr ''uid'', GStr ''=='', GStr ''abc'']]) (count_query sixty_docs) = Inr n
         \<and> map_of [(''docs'', GDocs []), (''page'', GInt 1), (''perPage'', GInt 25),
              (''count'', GInt 60), (''totalPage'', GInt 3)] ''count'' = Some (GInt n))"
proof -
  let ?c = "[GSlice [GStr ''uid'', GStr ''=='', GStr ''abc'']]"
  let ?m = "[(''limit'', GInt 1)]"
  have hyp: "?c \<noteq> [] \<and> kind_of (last ?c) \<noteq> KMap \<and> last ?c \<noteq> GNil" by simp
  have plain: "CountDocs sixty_docs ?c = Inr 60"
    by (simp add: run_defs eval_defs sixty_docs_def)
  have runc: "PaginateWithCount sixty_docs (\<lambda>m. m) (?c @ [GMap ?m]) 1 25
       = Inr [(''docs'', GDocs []), (''page'', GInt 1), (''perPage'', GInt 25),
              (''count'', GInt 60), (''totalPage'', GInt 3)]"
    by (simp add: run_defs eval_defs sixty_docs_def)
  note inst = CountDocs_ignores_trailing_mapping[of sixty_docs ?c ?m "[]" "\<lambda>m. m" 1 25]
  from inst hyp have "CountDocs sixty_docs (?c @ [GMap ?m]) = CountDocs sixty_docs ?c" by blast
  with plain have a: "CountDocs sixty_docs (?c @ [GMap ?m]) = Inr 60" by simp
  from inst runc have b: "\<exists>n. and_then (MakeQuery ?c) (count_query sixty_docs) = Inr n
         \<and> map_of [(''docs'', GDocs []), (''page'', GInt 1), (''perPage'', GInt 25),
              (''count'', GInt 60), (''totalPage'', GInt 3)] ''count'' = Some (GInt n)"
    by blast
  from hyp a plain runc b show ?thesis by blast
qed

text \<open>
  The claim as stated compares with \<open>CountDocs\<close> of the sequence without its trailing
  mapping. That fails when nothing is left (the empty sequence is an error of
  \<open>lo.Last\<close>) and when what is left ends in a mapping again (that mapping is then the
  last element of the counted sequence and is dropped in its turn, while in the longer
  sequence it is compiled as the final mapping and its limit applies to the count).
\<close>

theorem CountDocs_trailing_mapping_removed_differs:
  "CountDocs sixty_docs ([] @ [GMap [(''limit'', GInt 1)]]) = Inr 60
   \<and> CountDocs sixty_docs [] = Inl (Error (ErrNew lo_Last_message))
   \<and> CountDocs sixty_docs ([GMap [(''limit'', GInt 1)]] @ [GMap []]) = Inr 1
   \<and> CountDocs sixty_docs [GMap [(''limit'', GInt 1)]] = Inr 60"
  by (simp add: CountDocs_def lo_Last_def TypeOf_Kind_def count_query_def sixty_docs_def eval_defs)

section \<open>GetDoc: the not-found error\<close>

text \<open>
  C8, as amended. When the client's \<open>Get\<close> fails with status code \<open>NotFound\<close>,
  \<open>GetDoc\<close> returns a new error whose message is \<open>doc not found: \<close> followed by the
  requested id; every other error of the client is returned unchanged.
\<close>

theorem GetDoc_not_found_message:
  "DocGet coll docId = Inl e \<Longrightarrow>
   GetDoc coll docId =
     Inl (Error (if status_Code e = NotFound then ErrNew (''doc not found: '' @ docId) else e))"
  by (simp add: GetDoc_def)

theorem GetDoc_not_found_message_witness:
  "DocGet no_docs ''x'' = Inl (Client NotFound ''missing'')
   \<and> GetDoc no_docs ''x'' = Inl (Error (ErrNew ''doc not found: x''))"
proof -
  have h: "DocGet no_docs ''x'' = Inl (Client NotFound ''missing'')" by (simp add: no_docs_def)
  have "GetDoc no_docs ''x'' =
     Inl (Error (if status_Code (Client NotFound ''missing'') = NotFound then ErrNew (''doc not found: '' @ ''x'') else Client NotFound ''missing''))"
    by (rule GetDoc_not_found_message[OF h])
  then show ?thesis using h by simp
qed

text \<open>
  The message the claim quotes, \<open>document not found: \<close> and the id, is not the message
  the code builds.
\<close>

theorem GetDoc_message_is_not_document_not_found: "GetDoc no_docs ''x'' \<noteq> Inl (Error (ErrNew ''document not found: x''))"
  by (simp add: GetDoc_def no_docs_def)

section \<open>FindDoc\<close>



section \<open>An empty condition sequence\<close>

text \<open>
  C10. \<open>Paginate\<close> indexes the last element of the condition sequence without checking
  that there is one: on the empty sequence it panics with an index out of range, whatever
  the page and page size, before any query is made. \<open>MakeQuery\<close> accepts the empty
  sequence and returns the base query of the collection, with no builder call applied.
\<close>

theorem Paginate_empty_condition_panics:
  "Paginate coll ord [] page perPage = Inl (Panic IndexOutOfRange) \<and> MakeQuery [] = Inr []"
  by (simp add: Paginate_def MakeQuery_def Let_def)

section \<open>The update delta\<close>





section \<open>The deep copy is independent of the original\<close>

text \<open>
  C2. Let \<open>deepCopyMap\<close> return a copy of a document, and let the transform, given
  that copy, change nothing but objects reachable from it (nested maps and arrays
  included) and objects it allocates. Then the copy consists of objects allocated by the
  copy alone; every object that existed before the copy was taken, so the original
  document with everything nested in it, is the same after the transform as before; and
  \<open>makeUpdateData\<close> computes the delta against the entries the original had before the
  transform ran. The copy does come back: on a store in which the value is nested no
  deeper than the bound of the recursion, \<open>deepCopyMap\<close> returns or panics.
\<close>

theorem deepCopyMap_independent:
  assumes copy: "deepCopyMap fuel h oldDoc = Some (Inr (copied, h1))"
      and run: "batchFn copied h1 = (afterDoc, h2)"
      and grows: "length h1 \<le> length h2"
      and confined: "\<forall>a < length h1. a \<notin> reach h1 copied \<longrightarrow> h2 ! a = h1 ! a"
  shows "reach h1 copied \<subseteq> {length h ..< length h1}
       \<and> (\<forall>a < length h. h1 ! a = h ! a \<and> h2 ! a = h ! a)
       \<and> entries h2 oldDoc = entries h oldDoc
       \<and> makeUpdateData fuel h oldDoc (Some batchFn) =
           (case entries h2 afterDoc of
              None \<Rightarrow> None
            | Some am \<Rightarrow>
                (case entries h oldDoc of
                   None \<Rightarrow> None
                 | Some om \<Rightarrow>
                     (case diff am om [] of
                        Inl e \<Rightarrow> Some (Inl e)
                      | Inr updateData \<Rightarrow> Some (Inr (updateData, h2)))))
       \<and> (\<forall>n h0 v. fits n h0 v \<longrightarrow> (\<exists>r. deepCopyMap n h0 v = Some r))"
proof -
  note fresh = deepCopyMap_fresh[OF copy]
  have len: "length h \<le> length h1" using fresh(1) by (rule extends_length)
  have old: "\<forall>a < length h. h1 ! a = h ! a \<and> h2 ! a = h ! a"
  proof (intro allI impI)
    fix a assume a: "a < length h"
    then have "a \<notin> reach h1 copied" using fresh(2) by auto
    moreover have "a < length h1" using a len by simp
    ultimately have "h2 ! a = h1 ! a" using confined by simp
    moreover have "h1 ! a = h ! a" using extends_nth[OF fresh(1) a] .
    ultimately show "h1 ! a = h ! a \<and> h2 ! a = h ! a" by simp
  qed
  have ent: "entries h2 oldDoc = entries h oldDoc"
  proof (rule unchanged_entries)
    show "\<forall>a < length h. h2 ! a = h ! a" using old by simp
    show "length h \<le> length h2" using len grows by simp
    show "a < length h" if "oldDoc = VMap a" for a using copy that deepCopyMap_source by simp
  qed
  have "makeUpdateData fuel h oldDoc (Some batchFn) =
           (case entries h2 afterDoc of
              None \<Rightarrow> None
            | Some am \<Rightarrow>
                (case entries h2 oldDoc of
                   None \<Rightarrow> None
                 | Some om \<Rightarrow>
                     (case diff am om [] of
                        Inl e \<Rightarrow> Some (Inl e)
                      | Inr updateData \<Rightarrow> Some (Inr (updateData, h2)))))"
    using copy run by (simp add: makeUpdateData_def Let_def split: option.splits sum.splits)
  then have "makeUpdateData fuel h oldDoc (Some batchFn) =
           (case entries h2 afterDoc of
              None \<Rightarrow> None
            | Some am \<Rightarrow>
                (case entries h oldDoc of
                   None \<Rightarrow> None
                 | Some om \<Rightarrow>
                     (case diff am om [] of
                        Inl e \<Rightarrow> Some (Inl e)
                      | Inr updateData \<Rightarrow> Some (Inr (updateData, h2)))))"
    by (simp only: ent)
  moreover have "\<forall>n h0 v. fits n h0 v \<longrightarrow> (\<exists>r. deepCopyMap n h0 v = Some r)"
    using deepCopyMap_returns by blast
  ultimately show ?thesis using fresh(2) old ent by blast
qed

theorem deepCopyMap_independent_witness:
  "fits 2 nested_heap (VMap 2)
   \<and> deepCopyMap 2 nested_heap (VMap 2) = Some (Inr (VMap 3, nested_copied))
   \<and> touch_nested (VMap 3) nested_copied = (VMap 3, nested_touched)
   \<and> length nested_copied \<le> length nested_touched
   \<and> nested_touched ! 0 = nested_copied ! 0 \<and> nested_touched ! 1 = nested_copied ! 1
   \<and> nested_touched ! 2 = nested_copied ! 2 \<and> nested_touched ! 3 = nested_copied ! 3
   \<and> 4 \<in> reach nested_copied (VMap 3) \<and> 5 \<in> reach nested_copied (VMap 3)
   \<and> nested_touched ! 4 \<noteq> nested_copied ! 4 \<and> nested_touched ! 5 \<noteq> nested_copied ! 5
   \<and> reach nested_copied (VMap 3) \<subseteq> {length nested_heap ..< length nested_copied}
   \<and> take (length nested_heap) nested_touched = nested_heap
   \<and> entries nested_touched (VMap 2) = entries nested_heap (VMap 2)"
proof -
  have copy: "deepCopyMap 2 nested_heap (VMap 2) = Some (Inr (VMap 3, nested_copied))"
    unfolding nested_copied_def by (rule nested_copy)
  have run: "touch_nested (VMap 3) nested_copied = (VMap 3, nested_touched)"
    by (simp add: touch_nested_def nested_copied_def nested_touched_def nested_heap_def heap_defs)
  have grows: "length nested_copied \<le> length nested_touched"
    by (simp add: nested_copied_def nested_touched_def)
  have same: "nested_touched ! 0 = nested_copied ! 0" "nested_touched ! 1 = nested_copied ! 1"
    "nested_touched ! 2 = nested_copied ! 2" "nested_touched ! 3 = nested_copied ! 3"
    by (simp_all add: nested_copied_def nested_touched_def nested_heap_def)
  have changed: "nested_touched ! 4 \<noteq> nested_copied ! 4" "nested_touched ! 5 \<noteq> nested_copied ! 5"
    by (simp_all add: nested_copied_def nested_touched_def nested_heap_def)
  have r3: "3 \<in> reach nested_copied (VMap 3)" by (rule reach.root) simp
  have r4: "4 \<in> reach nested_copied (VMap 3)"
    by (rule reach.step[OF r3]) (simp_all add: nested_copied_def nested_heap_def)
  have r5: "5 \<in> reach nested_copied (VMap 3)"
    by (rule reach.step[OF r3]) (simp_all add: nested_copied_def nested_heap_def)
  have confined: "\<forall>a < length nested_copied. a \<notin> reach nested_copied (VMap 3) \<longrightarrow> nested_touched ! a = nested_copied ! a"
  proof (intro allI impI)
    fix a assume "a < length nested_copied" and nr: "a \<notin> reach nested_copied (VMap 3)"
    then have "a < 6" by (simp add: nested_copied_def nested_heap_def)
    then consider "a = 0" | "a = 1" | "a = 2" | "a = 3" | "a = 4" | "a = 5" by linarith
    then show "nested_touched ! a = nested_copied ! a"
      using nr r4 r5 same by cases simp_all
  qed
  note inst = deepCopyMap_independent[where batchFn = touch_nested, OF copy run grows confined]
  from inst have fresh: "reach nested_copied (VMap 3) \<subseteq> {length nested_heap ..< length nested_copied}"
    and ent: "entries nested_touched (VMap 2) = entries nested_heap (VMap 2)"
    and old: "\<forall>a < length nested_heap. nested_copied ! a = nested_heap ! a \<and> nested_touched ! a = nested_heap ! a"
    by blast+
  have "take (length nested_heap) nested_touched = nested_heap"
  proof (rule nth_equalityI)
    show "length (take (length nested_heap) nested_touched) = length nested_heap"
      by (simp add: nested_touched_def)
    show "take (length nested_heap) nested_touched ! i = nested_heap ! i"
      if "i < length (take (length nested_heap) nested_touched)" for i
      using that old by simp
  qed
  moreover have "fits 2 nested_heap (VMap 2)"
    by (simp add: nested_heap_def numeral_2_eq_2 the_map_def the_arr_def)
  ultimately show ?thesis using copy run grows same r4 r5 changed fresh ent by blast
qed

section \<open>BatchDocs: a failed group does not stop the batch\<close>

text \<open>
  C5. The loop of \<open>BatchDocs\<close> over the groups, started with any accumulated errors and
  results, returns what running every group in turn gives: the results it started with
  followed by the write results of the groups that returned no error, in order, and the
  join of the errors it started with and the errors of the groups that returned one.
  Every group is run, whatever the groups before it returned. \<open>BatchDocs\<close> itself, when
  the query returns documents, is that loop over the groups of at most 500 documents,
  started with no error and no result.
\<close>

theorem BatchDocs_continues_after_failed_group:
  "BatchDocs_loop batch fuel batchFn groups st errs batchResults =
     seq (run_groups batch fuel batchFn groups st) (\<lambda>r.
       Some (Inr ((batchResults @ concat (map fst (filter (\<lambda>out. snd out = None) (fst r))),
                   errors_Join (errs @ List.map_filter snd (fst r))),
                  snd r)))
   \<and> (\<forall>outs st'. run_groups batch fuel batchFn groups st = Some (Inr (outs, st')) \<longrightarrow>
         length outs = length groups)
   \<and> (ListDocs coll condition = Inr docs \<and> docs \<noteq> [] \<and> load_docs docs (Heap st) = (loaded, h) \<longrightarrow>
         BatchDocs coll batch fuel condition batchFn st =
           seq (run_groups batch fuel batchFn (lo_Chunk loaded 500) (st\<lparr>Heap := h\<rparr>)) (\<lambda>r.
             Some (Inr ((concat (map fst (filter (\<lambda>out. snd out = None) (fst r))),
                         errors_Join (List.map_filter snd (fst r))),
                        snd r))))"
proof (intro conjI allI impI)
  show "BatchDocs_loop batch fuel batchFn groups st errs batchResults =
     seq (run_groups batch fuel batchFn groups st) (\<lambda>r.
       Some (Inr ((batchResults @ concat (map fst (filter (\<lambda>out. snd out = None) (fst r))),
                   errors_Join (errs @ List.map_filter snd (fst r))),
                  snd r)))"
    by (rule BatchDocs_loop_run_groups)
next
  fix outs st' assume "run_groups batch fuel batchFn groups st = Some (Inr (outs, st'))"
  then show "length outs = length groups" by (rule run_groups_length)
next
  assume a: "ListDocs coll condition = Inr docs \<and> docs \<noteq> [] \<and> load_docs docs (Heap st) = (loaded, h)"
  then have "BatchDocs coll batch fuel condition batchFn st =
      BatchDocs_loop batch fuel batchFn (lo_Chunk loaded 500) (st\<lparr>Heap := h\<rparr>) [] []"
    by (simp add: BatchDocs_def)
  then show "BatchDocs coll batch fuel condition batchFn st =
           seq (run_groups batch fuel batchFn (lo_Chunk loaded 500) (st\<lparr>Heap := h\<rparr>)) (\<lambda>r.
             Some (Inr ((concat (map fst (filter (\<lambda>out. snd out = None) (fst r))),
                         errors_Join (List.map_filter snd (fst r))),
                        snd r)))"
    by (simp add: BatchDocs_loop_run_groups[of batch fuel batchFn "lo_Chunk loaded 500" "st\<lparr>Heap := h\<rparr>" "[]" "[]"])
qed

theorem BatchDocs_continues_after_failed_group_witness:
  "ListDocs two_docs [] =
     Inr [[(''id'', FStr ''d1''), (''name'', FStr ''x''), (''_id'', FStr ''d1''), (''_ref'', FStr ''c/d1'')],
          [(''id'', FStr ''d2''), (''name'', FStr ''y''), (''_id'', FStr ''d2''), (''_ref'', FStr ''c/d2'')]]
   \<and> [[(''id'', FStr ''d1''), (''name'', FStr ''x''), (''_id'', FStr ''d1''), (''_ref'', FStr ''c/d1'')],
       [(''id'', FStr ''d2''), (''name'', FStr ''y''), (''_id'', FStr ''d2''), (''_ref'', FStr ''c/d2'')]] \<noteq> []
   \<and> load_docs
         [[(''id'', FStr ''d1''), (''name'', FStr ''x''), (''_id'', FStr ''d1''), (''_ref'', FStr ''c/d1'')],
          [(''id'', FStr ''d2''), (''name'', FStr ''y''), (''_id'', FStr ''d2''), (''_ref'', FStr ''c/d2'')]]
         (Heap \<lparr>Heap = [], Writes = []\<rparr>)
       = ([VMap 0, VMap 1],
          [OMap [(''id'', VStr ''d1''), (''name'', VStr ''x''), (''_id'', VStr ''d1''), (''_ref'', VStr ''c/d1'')],
           OMap [(''id'', VStr ''d2''), (''name'', VStr ''y''), (''_id'', VStr ''d2''), (''_ref'', VStr ''c/d2'')]])
   \<and> (\<exists>st'. BatchDocs two_docs rejecting_d1 1 [] (Some rename) \<lparr>Heap = [], Writes = []\<rparr>
          = Some (Inr (([], Some (Joined [Joined [ErrNew ''rejected'']])), st')))
   \<and> (\<exists>st'. run_groups rejecting_d1 1 (Some rename) [[VMap 0], [VMap 1]] \<lparr>Heap = two_docs_heap, Writes = []\<rparr>
          = Some (Inr ([([], Some (Joined [ErrNew ''rejected''])), ([WriteResult 1], None)], st'))
        \<and> length [([] :: write_result list, Some (Joined [ErrNew ''rejected''])), ([WriteResult 1], None)]
          = length [[VMap 0], [VMap 1]]
        \<and> BatchDocs_loop rejecting_d1 1 (Some rename) [[VMap 0], [VMap 1]] \<lparr>Heap = two_docs_heap, Writes = []\<rparr> [] []
          = Some (Inr (([WriteResult 1], Some (Joined [Joined [ErrNew ''rejected'']])), st')))"
proof -
  let ?D = "[[(''id'', FStr ''d1''), (''name'', FStr ''x''), (''_id'', FStr ''d1''), (''_ref'', FStr ''c/d1'')],
          [(''id'', FStr ''d2''), (''name'', FStr ''y''), (''_id'', FStr ''d2''), (''_ref'', FStr ''c/d2'')]]"
  let ?H = "[OMap [(''id'', VStr ''d1''), (''name'', VStr ''x''), (''_id'', VStr ''d1''), (''_ref'', VStr ''c/d1'')],
           OMap [(''id'', VStr ''d2''), (''name'', VStr ''y''), (''_id'', VStr ''d2''), (''_ref'', VStr ''c/d2'')]]"
  let ?init = "\<lparr>Heap = [], Writes = []\<rparr>"
  let ?two = "\<lparr>Heap = two_docs_heap, Writes = []\<rparr>"
  have ld: "ListDocs two_docs [] = Inr ?D"
    by (simp add: ListDocs_def MakeQuery_def two_docs_def docSnapsDataToMap_def makeDocResponse_def lo_Assign_def)
  have ne: "?D \<noteq> []" by simp
  have lo: "load_docs ?D (Heap ?init) = ([VMap 0, VMap 1], ?H)" by simp
  note inst0 = BatchDocs_continues_after_failed_group[of rejecting_d1 1 "Some rename" "[]" ?init "[]" "[]" two_docs "[]" ?D "[VMap 0, VMap 1]" ?H]
  from inst0 ld ne lo have
    "BatchDocs two_docs rejecting_d1 1 [] (Some rename) ?init =
           seq (run_groups rejecting_d1 1 (Some rename) (lo_Chunk [VMap 0, VMap 1] 500) (?init\<lparr>Heap := ?H\<rparr>)) (\<lambda>r.
             Some (Inr ((concat (map fst (filter (\<lambda>out. snd out = None) (fst r))),
                         errors_Join (List.map_filter snd (fst r))),
                        snd r)))"
    by blast
  then have a: "\<exists>st'. BatchDocs two_docs rejecting_d1 1 [] (Some rename) ?init
          = Some (Inr (([], Some (Joined [Joined [ErrNew ''rejected'']])), st'))"
    by (simp add: batch_defs rejecting_d1_def heap_defs)
  have rg: "run_groups rejecting_d1 1 (Some rename) [[VMap 0], [VMap 1]] ?two
      = Some (Inr ([([], Some (Joined [ErrNew ''rejected''])), ([WriteResult 1], None)],
          \<lparr>Heap = two_docs_heap @ [OMap [(''id'', VStr ''d1''), (''name'', VStr ''z'')],
                                    OMap [(''id'', VStr ''d2''), (''name'', VStr ''z'')]],
           Writes = [(''d1'', [\<lparr>Path = ''name'', Value = VStr ''z''\<rparr>, \<lparr>Path = ''updatedAt'', Value = VTime 0\<rparr>]),
                     (''d2'', [\<lparr>Path = ''name'', Value = VStr ''z''\<rparr>, \<lparr>Path = ''updatedAt'', Value = VTime 1\<rparr>])]\<rparr>))"
    by (simp add: batch_defs rejecting_d1_def two_docs_heap_def heap_defs)
  note inst1 = BatchDocs_continues_after_failed_group[of rejecting_d1 1 "Some rename" "[[VMap 0], [VMap 1]]" ?two "[]" "[]"]
  from inst1 have "BatchDocs_loop rejecting_d1 1 (Some rename) [[VMap 0], [VMap 1]] ?two [] [] =
     seq (run_groups rejecting_d1 1 (Some rename) [[VMap 0], [VMap 1]] ?two) (\<lambda>r.
       Some (Inr (([] @ concat (map fst (filter (\<lambda>out. snd out = None) (fst r))),
                   errors_Join ([] @ List.map_filter snd (fst r))),
                  snd r)))"
    by blast
  then have b: "BatchDocs_loop rejecting_d1 1 (Some rename) [[VMap 0], [VMap 1]] ?two [] []
          = Some (Inr (([WriteResult 1], Some (Joined [Joined [ErrNew ''rejected'']])),
          \<lparr>Heap = two_docs_heap @ [OMap [(''id'', VStr ''d1''), (''name'', VStr ''z'')],
                                    OMap [(''id'', VStr ''d2''), (''name'', VStr ''z'')]],
           Writes = [(''d1'', [\<lparr>Path = ''name'', Value = VStr ''z''\<rparr>, \<lparr>Path = ''updatedAt'', Value = VTime 0\<rparr>]),
                     (''d2'', [\<lparr>Path = ''name'', Value = VStr ''z''\<rparr>, \<lparr>Path = ''updatedAt'', Value = VTime 1\<rparr>])]\<rparr>))"
    by (simp only: rg) (simp add: errors_Join_def List.map_filter_simps)
  from inst1 rg have c: "length [([] :: write_result list, Some (Joined [ErrNew ''rejected''])), ([WriteResult 1], None)]
          = length [[VMap 0], [VMap 1]]"
    by blast
  from ld ne lo a rg b c show ?thesis by blast
qed

end
